theory Spec2Isabelle
  imports Main "HOL-Library.Word"
begin

section \<open>The shared state of the array based lock-free queue\<close>

text \<open>
  The class template \<^verbatim>\<open>ArrayLockFreeQueueBase<ELEM_T, Q_SIZE, Q_MULTIPLE_PRODUCERS>\<close>
  holds the array \<^verbatim>\<open>m_theQueue[Q_SIZE]\<close>, the two counters \<^verbatim>\<open>m_writeIndex\<close> and
  \<^verbatim>\<open>m_readIndex\<close> and, when \<^verbatim>\<open>LOCK_FREE_Q_KEEP_REAL_SIZE\<close> is defined, the counter
  \<^verbatim>\<open>m_count\<close>. All counters are \<^verbatim>\<open>uint32_t\<close>: arithmetic on them wraps modulo 2^32.

  The template parameter \<^verbatim>\<open>Q_SIZE\<close> and the compile-time switch are passed to every
  function of the model as the first two arguments (\<open>Q_SIZE :: uint32\<close> and
  \<open>keep :: bool\<close>). In the configuration without the switch the member \<^verbatim>\<open>m_count\<close>
  does not exist; the model keeps the field and never reads or writes it there.
  \<^verbatim>\<open>Q_SIZE = 0\<close> is outside the model: the array would have no element and
  \<^verbatim>\<open>a_count % Q_SIZE\<close> is undefined.
\<close>

type_synonym uint32 = "32 word"

record 'a queue =
  m_theQueue :: "'a list"
  m_writeIndex :: uint32
  m_readIndex :: uint32
  m_count :: uint32

text \<open>
  The constructor zeroes the indices (and the count). The array elements are default
  initialised, so their first content is a parameter.
\<close>

definition ArrayLockFreeQueueBase :: "'a list \<Rightarrow> 'a queue" where
  "ArrayLockFreeQueueBase arr =
     \<lparr>m_theQueue = arr, m_writeIndex = 0, m_readIndex = 0, m_count = 0\<rparr>"

definition countToIndex :: "uint32 \<Rightarrow> uint32 \<Rightarrow> uint32" where
  "countToIndex Q_SIZE a_count = a_count mod Q_SIZE"

text \<open>
  \<^verbatim>\<open>size()\<close>: the two members are read one after the other into locals; the rest of the
  function works on the two locals only, which is \<open>size_of_snapshot\<close>.
\<close>

definition size_of_snapshot :: "uint32 \<Rightarrow> uint32 \<Rightarrow> uint32 \<Rightarrow> uint32" where
  "size_of_snapshot Q_SIZE currentWriteIndex currentReadIndex =
     (if currentWriteIndex \<ge> currentReadIndex
      then currentWriteIndex - currentReadIndex
      else Q_SIZE + currentWriteIndex - currentReadIndex)"

definition size_q :: "uint32 \<Rightarrow> bool \<Rightarrow> 'a queue \<Rightarrow> uint32" where
  "size_q Q_SIZE keep s =
     (if keep then m_count s
      else (let currentWriteIndex = m_writeIndex s;
                currentReadIndex = m_readIndex s
            in size_of_snapshot Q_SIZE currentWriteIndex currentReadIndex))"

definition full :: "uint32 \<Rightarrow> bool \<Rightarrow> 'a queue \<Rightarrow> bool" where
  "full Q_SIZE keep s =
     (if keep then m_count s = Q_SIZE - 1
      else (let currentWriteIndex = m_writeIndex s;
                currentReadIndex = m_readIndex s
            in if countToIndex Q_SIZE (currentWriteIndex + 1) = countToIndex Q_SIZE currentReadIndex
               then True else False))"

section \<open>The atomic primitives\<close>

text \<open>
  Modelled from the spec: the macros \<^verbatim>\<open>AtomicAdd\<close>, \<^verbatim>\<open>AtomicSub\<close> and \<^verbatim>\<open>CAS\<close> are
  defined in a header that is not part of the sources at hand. The specification treats
  them as sequentially consistent primitives: an atomic add, an atomic subtract, and a
  compare-and-swap that "updates a memory location to a new value only if it currently
  holds an expected value, reporting success or failure". Each works on one
  \<^verbatim>\<open>uint32_t\<close> cell; the model takes the cell's content and returns the new content.
\<close>

definition AtomicAdd :: "uint32 \<Rightarrow> uint32 \<Rightarrow> uint32" where
  "AtomicAdd cell n = cell + n"

definition AtomicSub :: "uint32 \<Rightarrow> uint32 \<Rightarrow> uint32" where
  "AtomicSub cell n = cell - n"

definition CAS :: "uint32 \<Rightarrow> uint32 \<Rightarrow> uint32 \<Rightarrow> bool \<times> uint32" where
  "CAS cell expected new = (if cell = expected then (True, new) else (False, cell))"

section \<open>Single producer push and multiple consumer pop, run without interference\<close>

text \<open>
  \<^verbatim>\<open>push\<close> returns its boolean and the state it leaves.
\<close>

definition push :: "uint32 \<Rightarrow> bool \<Rightarrow> 'a \<Rightarrow> 'a queue \<Rightarrow> bool \<times> 'a queue" where
  "push Q_SIZE keep a_data s =
     (let currentWriteIndex = m_writeIndex s;
          currentReadIndex = m_readIndex s
      in if countToIndex Q_SIZE (currentWriteIndex + 1) = countToIndex Q_SIZE currentReadIndex
         then (False, s)
         else
           (let s1 = s\<lparr>m_theQueue :=
                        (m_theQueue s)[unat (countToIndex Q_SIZE currentWriteIndex) := a_data]\<rparr>;
                s2 = s1\<lparr>m_writeIndex := AtomicAdd (m_writeIndex s1) 1\<rparr>;
                s3 = (if keep then s2\<lparr>m_count := AtomicAdd (m_count s2) 1\<rparr> else s2)
            in (True, s3)))"

text \<open>
  One pass through the body of the \<^verbatim>\<open>do { ... } while(1)\<close> loop of \<^verbatim>\<open>pop\<close>. The
  reference parameter \<^verbatim>\<open>a_data\<close> is part of what the pass transforms. A pass ends in one
  of three ways: the \<^verbatim>\<open>return false\<close> of the emptiness test, which comes before the
  slot is read and before the compare-and-swap; the \<^verbatim>\<open>return true\<close> after a successful
  compare-and-swap; or falling through to the loop condition after a failed one.
\<close>

datatype outcome = ReturnEmpty | ReturnClaimed | Retry

definition pop_iteration :: "uint32 \<Rightarrow> bool \<Rightarrow> 'a \<times> 'a queue \<Rightarrow> outcome \<times> 'a \<times> 'a queue" where
  "pop_iteration Q_SIZE keep ds =
     (let a_data = fst ds; s = snd ds;
          currentMaximumReadIndex = m_writeIndex s;
          currentReadIndex = m_readIndex s
      in if countToIndex Q_SIZE currentReadIndex = countToIndex Q_SIZE currentMaximumReadIndex
         then (ReturnEmpty, a_data, s)
         else
           (let a_data' = m_theQueue s ! unat (countToIndex Q_SIZE currentReadIndex);
                (swapped, r') = CAS (m_readIndex s) currentReadIndex (currentReadIndex + 1);
                s1 = s\<lparr>m_readIndex := r'\<rparr>
            in if swapped
               then (ReturnClaimed, a_data',
                     (if keep then s1\<lparr>m_count := AtomicSub (m_count s1) 1\<rparr> else s1))
               else (Retry, a_data', s1)))"

text \<open>
  The loop itself has no bound in the source, so it is a partial function: \<open>None\<close> is
  "does not return".
\<close>

partial_function (option) pop :: "uint32 \<Rightarrow> bool \<Rightarrow> 'a \<times> 'a queue \<Rightarrow> (bool \<times> 'a \<times> 'a queue) option" where
  "pop Q_SIZE keep ds =
     (case pop_iteration Q_SIZE keep ds of
        (ReturnEmpty, ds') \<Rightarrow> Some (False, ds')
      | (ReturnClaimed, ds') \<Rightarrow> Some (True, ds')
      | (Retry, ds') \<Rightarrow> pop Q_SIZE keep ds')"

section \<open>A caller that runs operations one after the other\<close>

text \<open>
  Sequences of operations are run by one caller, each call to completion before the
  next starts. The caller owns the variable that \<^verbatim>\<open>pop\<close> fills through its reference
  parameter, and it keeps a log: what every call returned, the values whose \<^verbatim>\<open>push\<close>
  returned true and the values delivered by a \<^verbatim>\<open>pop\<close> that returned true, in order.
\<close>

datatype 'a op = Push 'a | Pop | Full | Size

datatype 'a ret = PushRet bool | PopRet bool 'a | FullRet bool | SizeRet uint32

record 'a caller =
  queue_of :: "'a queue"
  a_data_of :: 'a
  rets :: "'a ret list"
  pushed :: "'a list"
  popped :: "'a list"

definition fresh :: "'a list \<Rightarrow> 'a \<Rightarrow> 'a caller" where
  "fresh arr d =
     \<lparr>queue_of = ArrayLockFreeQueueBase arr, a_data_of = d, rets = [], pushed = [], popped = []\<rparr>"

definition apply_op :: "uint32 \<Rightarrow> bool \<Rightarrow> 'a op \<Rightarrow> 'a caller \<Rightarrow> 'a caller option" where
  "apply_op Q_SIZE keep x c =
     (case x of
        Push v \<Rightarrow>
          (case push Q_SIZE keep v (queue_of c) of
             (ok, s') \<Rightarrow>
               Some (c\<lparr>queue_of := s', rets := rets c @ [PushRet ok],
                       pushed := (if ok then pushed c @ [v] else pushed c)\<rparr>))
      | Pop \<Rightarrow>
          (case pop Q_SIZE keep (a_data_of c, queue_of c) of
             None \<Rightarrow> None
           | Some (ok, d, s') \<Rightarrow>
               Some (c\<lparr>queue_of := s', a_data_of := d, rets := rets c @ [PopRet ok d],
                       popped := (if ok then popped c @ [d] else popped c)\<rparr>))
      | Full \<Rightarrow> Some (c\<lparr>rets := rets c @ [FullRet (full Q_SIZE keep (queue_of c))]\<rparr>)
      | Size \<Rightarrow> Some (c\<lparr>rets := rets c @ [SizeRet (size_q Q_SIZE keep (queue_of c))]\<rparr>))"

fun exec :: "uint32 \<Rightarrow> bool \<Rightarrow> 'a op list \<Rightarrow> 'a caller \<Rightarrow> 'a caller option" where
  "exec Q_SIZE keep [] c = Some c"
| "exec Q_SIZE keep (x # xs) c =
     (case apply_op Q_SIZE keep x c of
        None \<Rightarrow> None
      | Some c' \<Rightarrow> exec Q_SIZE keep xs c')"

text \<open>The number of elements pushed but not yet popped, from the caller's log.\<close>

definition live :: "'a caller \<Rightarrow> nat" where
  "live c = length (pushed c) - length (popped c)"

text \<open>
  What the caller's log says about the queue it drives: the two indices count the
  successful pushes and pops (modulo 2^32), at most \<^verbatim>\<open>Q_SIZE - 1\<close> elements are live,
  and the live elements sit in the array in the order they were pushed.
\<close>

definition tracks :: "bool \<Rightarrow> 'a caller \<Rightarrow> bool" where
  "tracks keep c \<longleftrightarrow>
     m_writeIndex (queue_of c) = of_nat (length (pushed c)) \<and>
     m_readIndex (queue_of c) = of_nat (length (popped c)) \<and>
     (keep \<longrightarrow>
        m_count (queue_of c) = of_nat (length (pushed c)) - of_nat (length (popped c)))"

definition bounded :: "uint32 \<Rightarrow> 'a caller \<Rightarrow> bool" where
  "bounded Q_SIZE c \<longleftrightarrow>
     length (popped c) \<le> length (pushed c) \<and>
     length (pushed c) - length (popped c) < unat Q_SIZE"

definition fifo :: "uint32 \<Rightarrow> 'a caller \<Rightarrow> bool" where
  "fifo Q_SIZE c \<longleftrightarrow>
     length (m_theQueue (queue_of c)) = unat Q_SIZE \<and>
     popped c = take (length (popped c)) (pushed c) \<and>
     (\<forall>i. length (popped c) \<le> i \<and> i < length (pushed c) \<longrightarrow>
          m_theQueue (queue_of c) ! (i mod unat Q_SIZE) = pushed c ! i)"

definition inv :: "uint32 \<Rightarrow> bool \<Rightarrow> 'a caller \<Rightarrow> bool" where
  "inv Q_SIZE keep c \<longleftrightarrow> Q_SIZE \<noteq> 0 \<and> tracks keep c \<and> bounded Q_SIZE c \<and> fifo Q_SIZE c"

text \<open>
  Two readings of a caller's queue that the properties below compare with the log:
  \<^verbatim>\<open>m_writeIndex - m_readIndex\<close> in \<^verbatim>\<open>uint32_t\<close> arithmetic, and the relation between the
  two indices that \<^verbatim>\<open>push\<close> tests before it stores anything.
\<close>

definition index_gap :: "'a caller \<Rightarrow> nat" where
  "index_gap c = unat (m_writeIndex (queue_of c) - m_readIndex (queue_of c))"

definition index_full :: "uint32 \<Rightarrow> 'a queue \<Rightarrow> bool" where
  "index_full Q_SIZE s \<longleftrightarrow>
     countToIndex Q_SIZE (m_writeIndex s + 1) = countToIndex Q_SIZE (m_readIndex s)"

text \<open>
  Three scenarios. \<open>capacity_ops\<close> fills the queue with the values \<open>vs\<close>, asks
  \<^verbatim>\<open>full()\<close>, pushes once more, pops once and then pushes twice, asking \<^verbatim>\<open>full()\<close> in
  between. \<open>cycles k v\<close> is \<open>k\<close> rounds of one pop followed by one push.
  \<open>run_past_wrap\<close> pushes twice, runs \<open>2^32 - 3\<close> rounds, which brings
  \<^verbatim>\<open>m_writeIndex\<close> to \<open>2^32 - 1\<close>, and pushes once more.
\<close>

definition capacity_ops :: "'a list \<Rightarrow> 'a \<Rightarrow> 'a \<Rightarrow> 'a \<Rightarrow> 'a op list" where
  "capacity_ops vs x y z = map Push vs @ [Full, Push x, Pop, Push y, Full, Push z]"

definition cycles :: "nat \<Rightarrow> 'a \<Rightarrow> 'a op list" where
  "cycles k v = concat (replicate k [Pop, Push v])"

definition run_past_wrap :: "'a \<Rightarrow> 'a op list" where
  "run_past_wrap v = [Push v, Push v] @ cycles (2 ^ 32 - 3) v @ [Push v]"

section \<open>One producer and several consumers, interleaved\<close>

text \<open>
  Threads interleave between their accesses to the shared members. Each thread is at a
  program point named after the source line it executes next, and holds the locals that
  are live there. A step of a thread performs the shared access of that line together
  with the local computation up to the next shared access.

  Program points of \<^verbatim>\<open>push\<close> (one producer): line 47 reads \<^verbatim>\<open>m_writeIndex\<close>, line 48
  reads \<^verbatim>\<open>m_readIndex\<close> and is followed by the test for a full queue, line 58 stores the
  element, line 62 increments \<^verbatim>\<open>m_writeIndex\<close>, line 66 increments \<^verbatim>\<open>m_count\<close>.
  Program points of \<^verbatim>\<open>pop\<close>: line 83 reads \<^verbatim>\<open>m_writeIndex\<close>, line 84 reads
  \<^verbatim>\<open>m_readIndex\<close> and is followed by the test for an empty queue, line 96 reads the
  slot, line 101 is the compare-and-swap, line 107 decrements \<^verbatim>\<open>m_count\<close>.
\<close>

datatype 'a producer_at =
    P_idle
  | P_line47 'a
  | P_line48 'a uint32
  | P_line58 'a uint32 uint32
  | P_line62 'a uint32 uint32
  | P_line66 'a

datatype 'a consumer_at =
    C_idle 'a
  | C_line83 'a
  | C_line84 'a uint32
  | C_line96 'a uint32 uint32
  | C_line101 'a uint32 uint32
  | C_line107 'a

text \<open>
  The system: the shared queue, the producer, the consumers, and two logs. A value
  enters \<open>pushed_values\<close> when line 62 publishes it, and \<open>popped_values\<close> when the
  compare-and-swap of line 101 succeeds for the thread that holds it.
\<close>

record 'a system =
  shared :: "'a queue"
  producer :: "'a producer_at"
  consumers :: "'a consumer_at list"
  pushed_values :: "'a list"
  popped_values :: "'a list"

definition start :: "'a list \<Rightarrow> 'a list \<Rightarrow> 'a system" where
  "start arr ds =
     \<lparr>shared = ArrayLockFreeQueueBase arr, producer = P_idle, consumers = map C_idle ds,
      pushed_values = [], popped_values = []\<rparr>"

definition producer_step :: "uint32 \<Rightarrow> bool \<Rightarrow> 'a system \<Rightarrow> 'a system option" where
  "producer_step Q_SIZE keep y =
     (let s = shared y in
      case producer y of
        P_idle \<Rightarrow> None
      | P_line47 a_data \<Rightarrow> Some (y\<lparr>producer := P_line48 a_data (m_writeIndex s)\<rparr>)
      | P_line48 a_data currentWriteIndex \<Rightarrow>
          (let currentReadIndex = m_readIndex s
           in if countToIndex Q_SIZE (currentWriteIndex + 1) = countToIndex Q_SIZE currentReadIndex
              then Some (y\<lparr>producer := P_idle\<rparr>)
              else Some (y\<lparr>producer := P_line58 a_data currentWriteIndex currentReadIndex\<rparr>))
      | P_line58 a_data currentWriteIndex currentReadIndex \<Rightarrow>
          Some (y\<lparr>shared := s\<lparr>m_theQueue :=
                         (m_theQueue s)[unat (countToIndex Q_SIZE currentWriteIndex) := a_data]\<rparr>,
                  producer := P_line62 a_data currentWriteIndex currentReadIndex\<rparr>)
      | P_line62 a_data currentWriteIndex currentReadIndex \<Rightarrow>
          Some (y\<lparr>shared := s\<lparr>m_writeIndex := AtomicAdd (m_writeIndex s) 1\<rparr>,
                  producer := (if keep then P_line66 a_data else P_idle),
                  pushed_values := pushed_values y @ [a_data]\<rparr>)
      | P_line66 a_data \<Rightarrow>
          Some (y\<lparr>shared := s\<lparr>m_count := AtomicAdd (m_count s) 1\<rparr>, producer := P_idle\<rparr>))"

definition consumer_step :: "uint32 \<Rightarrow> bool \<Rightarrow> nat \<Rightarrow> 'a system \<Rightarrow> 'a system option" where
  "consumer_step Q_SIZE keep t y =
     (let s = shared y in
      if t \<ge> length (consumers y) then None
      else
        case consumers y ! t of
          C_idle a_data \<Rightarrow> None
        | C_line83 a_data \<Rightarrow>
            Some (y\<lparr>consumers := (consumers y)[t := C_line84 a_data (m_writeIndex s)]\<rparr>)
        | C_line84 a_data currentMaximumReadIndex \<Rightarrow>
            (let currentReadIndex = m_readIndex s
             in if countToIndex Q_SIZE currentReadIndex =
                   countToIndex Q_SIZE currentMaximumReadIndex
                then Some (y\<lparr>consumers := (consumers y)[t := C_idle a_data]\<rparr>)
                else Some (y\<lparr>consumers :=
                             (consumers y)[t := C_line96 a_data currentMaximumReadIndex
                                                  currentReadIndex]\<rparr>))
        | C_line96 a_data currentMaximumReadIndex currentReadIndex \<Rightarrow>
            Some (y\<lparr>consumers :=
                      (consumers y)[t := C_line101
                                           (m_theQueue s ! unat (countToIndex Q_SIZE currentReadIndex))
                                           currentMaximumReadIndex currentReadIndex]\<rparr>)
        | C_line101 a_data currentMaximumReadIndex currentReadIndex \<Rightarrow>
            (case CAS (m_readIndex s) currentReadIndex (currentReadIndex + 1) of
               (swapped, r') \<Rightarrow>
                 if swapped
                 then Some (y\<lparr>shared := s\<lparr>m_readIndex := r'\<rparr>,
                              consumers := (consumers y)[t := (if keep then C_line107 a_data
                                                               else C_idle a_data)],
                              popped_values := popped_values y @ [a_data]\<rparr>)
                 else Some (y\<lparr>shared := s\<lparr>m_readIndex := r'\<rparr>,
                              consumers := (consumers y)[t := C_line83 a_data]\<rparr>))
        | C_line107 a_data \<Rightarrow>
            Some (y\<lparr>shared := s\<lparr>m_count := AtomicSub (m_count s) 1\<rparr>,
                    consumers := (consumers y)[t := C_idle a_data]\<rparr>))"

text \<open>
  A schedule is a list of moves: the producer is called with a value or takes its next
  step, consumer \<open>t\<close> is called or takes its next step. A move that is not possible in
  the current state (a call while the thread is inside a call, a step while it is idle,
  an unknown thread) makes the schedule invalid: \<open>None\<close>.
\<close>

datatype 'a move = Call_push 'a | Producer | Call_pop nat | Consumer nat

definition make_move :: "uint32 \<Rightarrow> bool \<Rightarrow> 'a move \<Rightarrow> 'a system \<Rightarrow> 'a system option" where
  "make_move Q_SIZE keep m y =
     (case m of
        Call_push v \<Rightarrow>
          (case producer y of
             P_idle \<Rightarrow> Some (y\<lparr>producer := P_line47 v\<rparr>)
           | _ \<Rightarrow> None)
      | Producer \<Rightarrow> producer_step Q_SIZE keep y
      | Call_pop t \<Rightarrow>
          (if t \<ge> length (consumers y) then None
           else case consumers y ! t of
                  C_idle a_data \<Rightarrow> Some (y\<lparr>consumers := (consumers y)[t := C_line83 a_data]\<rparr>)
                | _ \<Rightarrow> None)
      | Consumer t \<Rightarrow> consumer_step Q_SIZE keep t y)"

fun schedule :: "uint32 \<Rightarrow> bool \<Rightarrow> 'a move list \<Rightarrow> 'a system \<Rightarrow> 'a system option" where
  "schedule Q_SIZE keep [] y = Some y"
| "schedule Q_SIZE keep (m # ms) y =
     (case make_move Q_SIZE keep m y of
        None \<Rightarrow> None
      | Some y' \<Rightarrow> schedule Q_SIZE keep ms y')"


text \<open>
  A schedule for one producer and two consumers on a queue of four slots. Consumer 0
  enters \<^verbatim>\<open>pop\<close> and reads \<^verbatim>\<open>m_writeIndex\<close> (line 83) while the queue is still empty.
  The producer then pushes the value 7 to completion, and consumer 1 pops it to
  completion. Consumer 0 then goes on: it reads \<^verbatim>\<open>m_readIndex\<close> (line 84), reads the
  slot (line 96) and performs the compare-and-swap (line 101).
\<close>

definition stale_read_schedule :: "nat move list" where
  "stale_read_schedule =
     [Call_pop 0, Consumer 0,
      Call_push 7, Producer, Producer, Producer, Producer,
      Call_pop 1, Consumer 1, Consumer 1, Consumer 1, Consumer 1,
      Consumer 0, Consumer 0, Consumer 0]"

section \<open>Arithmetic of slots, and the two operations without interference\<close>


lemma unat_countToIndex: "unat (countToIndex Q c) = unat c mod unat Q"
  by (simp add: countToIndex_def unat_mod)

lemma slot_of_nat:
  assumes "unat Q dvd 2 ^ 32 \<or> n < 2 ^ 32"
  shows "unat (countToIndex Q (of_nat n)) = n mod unat Q"
proof -
  have "unat (countToIndex Q (of_nat n)) = (n mod 2 ^ 32) mod unat Q"
    by (simp add: unat_countToIndex unat_of_nat)
  also have "\<dots> = n mod unat Q"
    using assms by (auto simp: mod_mod_cancel)
  finally show ?thesis .
qed

lemma slot_eq_iff:
  assumes "unat Q dvd 2 ^ 32 \<or> (m < 2 ^ 32 \<and> n < 2 ^ 32)"
  shows "countToIndex Q (of_nat m) = countToIndex Q (of_nat n) \<longleftrightarrow> m mod unat Q = n mod unat Q"
proof -
  have "countToIndex Q (of_nat m) = countToIndex Q (of_nat n)
        \<longleftrightarrow> unat (countToIndex Q (of_nat m)) = unat (countToIndex Q (of_nat n))"
    by (simp add: word_unat_eq_iff)
  also have "\<dots> \<longleftrightarrow> m mod unat Q = n mod unat Q"
    using assms by (auto simp: slot_of_nat)
  finally show ?thesis .
qed

lemma mod_eq_full:
  fixes p r q :: nat
  assumes "r \<le> p" "p - r < q" 
  shows "(Suc p) mod q = r mod q \<longleftrightarrow> Suc p - r = q"
proof -
  have "Suc p mod q = r mod q \<longleftrightarrow> q dvd Suc p - r"
    using assms(1) by (simp add: mod_eq_dvd_iff_nat)
  also have "\<dots> \<longleftrightarrow> Suc p - r = q"
  proof
    assume d: "q dvd Suc p - r"
    have "0 < Suc p - r" using assms by simp
    with d have "q \<le> Suc p - r" by (rule dvd_imp_le)
    with assms show "Suc p - r = q" by simp
  qed simp
  finally show ?thesis .
qed

lemma mod_eq_empty:
  fixes p r q :: nat
  assumes "r \<le> p" "p - r < q" 
  shows "r mod q = p mod q \<longleftrightarrow> p = r"
proof -
  have "r mod q = p mod q \<longleftrightarrow> p mod q = r mod q"
    by (rule eq_commute)
  also have "\<dots> \<longleftrightarrow> q dvd p - r"
    using assms(1) by (simp add: mod_eq_dvd_iff_nat)
  also have "\<dots> \<longleftrightarrow> p = r"
  proof
    assume d: "q dvd p - r"
    show "p = r"
    proof (rule ccontr)
      assume "p \<noteq> r"
      then have "0 < p - r" using assms by simp
      with d have "q \<le> p - r" by (rule dvd_imp_le)
      with assms show False by simp
    qed
  qed simp
  finally show ?thesis .
qed

lemma pop_returns:
  "pop Q_SIZE keep (a_data, s) =
     Some (if countToIndex Q_SIZE (m_readIndex s) = countToIndex Q_SIZE (m_writeIndex s)
           then (False, a_data, s)
           else (True, m_theQueue s ! unat (countToIndex Q_SIZE (m_readIndex s)),
                 s\<lparr>m_readIndex := m_readIndex s + 1,
                   m_count := (if keep then m_count s - 1 else m_count s)\<rparr>))"
  by (subst pop.simps) (simp add: pop_iteration_def CAS_def AtomicSub_def Let_def)

lemma push_returns:
  "push Q_SIZE keep a_data s =
     (if countToIndex Q_SIZE (m_writeIndex s + 1) = countToIndex Q_SIZE (m_readIndex s)
      then (False, s)
      else (True, s\<lparr>m_theQueue := (m_theQueue s)[unat (countToIndex Q_SIZE (m_writeIndex s)) := a_data],
                    m_writeIndex := m_writeIndex s + 1,
                    m_count := (if keep then m_count s + 1 else m_count s)\<rparr>))"
  by (simp add: push_def AtomicAdd_def Let_def)

lemma exec_append:
  "exec Q keep (xs @ ys) c = (case exec Q keep xs c of None \<Rightarrow> None | Some c' \<Rightarrow> exec Q keep ys c')"
  by (induction xs arbitrary: c) (auto split: option.splits)

lemma apply_op_total: "\<exists>c'. apply_op Q keep x c = Some c'"
  by (cases x) (auto simp: apply_op_def pop_returns split: prod.splits)

lemma exec_total: "\<exists>c'. exec Q keep xs c = Some c'"
proof (induction xs arbitrary: c)
  case Nil show ?case by simp
next
  case (Cons x xs)
  obtain c1 where "apply_op Q keep x c = Some c1" using apply_op_total by blast
  then show ?case using Cons.IH [of c1] by simp
qed

lemma apply_op_pushed_mono:
  "apply_op Q keep x c = Some c' \<Longrightarrow> length (pushed c) \<le> length (pushed c')"
  by (cases x) (auto simp: apply_op_def pop_returns split: prod.splits if_splits)

lemma apply_op_tracks:
  assumes "apply_op Q keep x c = Some c'" "tracks keep c"
  shows "tracks keep c'"
  using assms
  by (cases x) (auto simp: apply_op_def pop_returns push_returns tracks_def split: prod.splits if_splits)

section \<open>The indices follow the log\<close>


lemma push_full_iff:
  assumes t: "tracks keep c" and b: "bounded Q c"
    and w: "unat Q dvd 2 ^ 32 \<or> Suc (length (pushed c)) < 2 ^ 32"
  shows "countToIndex Q (m_writeIndex (queue_of c) + 1) = countToIndex Q (m_readIndex (queue_of c))
         \<longleftrightarrow> Suc (length (pushed c)) - length (popped c) = unat Q"
proof -
  let ?P = "length (pushed c)" and ?R = "length (popped c)"
  have RP: "?R \<le> ?P" "?P - ?R < unat Q" using b by (auto simp: bounded_def)
  have "m_writeIndex (queue_of c) + 1 = of_nat (Suc ?P)" using t by (simp add: tracks_def)
  moreover have "m_readIndex (queue_of c) = of_nat ?R" using t by (simp add: tracks_def)
  ultimately have "countToIndex Q (m_writeIndex (queue_of c) + 1) = countToIndex Q (m_readIndex (queue_of c))
      \<longleftrightarrow> countToIndex Q (of_nat (Suc ?P)) = countToIndex Q (of_nat ?R)" by (simp add: add.commute)
  also have "\<dots> \<longleftrightarrow> Suc ?P mod unat Q = ?R mod unat Q"
    using w RP by (intro slot_eq_iff) auto
  also have "\<dots> \<longleftrightarrow> Suc ?P - ?R = unat Q"
    using RP by (rule mod_eq_full)
  finally show ?thesis .
qed

lemma pop_empty_iff:
  assumes t: "tracks keep c" and b: "bounded Q c"
    and w: "unat Q dvd 2 ^ 32 \<or> length (pushed c) < 2 ^ 32"
  shows "countToIndex Q (m_readIndex (queue_of c)) = countToIndex Q (m_writeIndex (queue_of c))
         \<longleftrightarrow> length (pushed c) = length (popped c)"
proof -
  let ?P = "length (pushed c)" and ?R = "length (popped c)"
  have RP: "?R \<le> ?P" "?P - ?R < unat Q" using b by (auto simp: bounded_def)
  have "countToIndex Q (m_readIndex (queue_of c)) = countToIndex Q (m_writeIndex (queue_of c))
      \<longleftrightarrow> countToIndex Q (of_nat ?R) = countToIndex Q (of_nat ?P)" using t by (simp add: tracks_def)
  also have "\<dots> \<longleftrightarrow> ?R mod unat Q = ?P mod unat Q"
    using w RP by (intro slot_eq_iff) auto
  also have "\<dots> \<longleftrightarrow> ?P = ?R"
    using RP by (rule mod_eq_empty)
  finally show ?thesis .
qed

lemma apply_op_bounded:
  assumes a: "apply_op Q keep x c = Some c'" and t: "tracks keep c" and b: "bounded Q c"
    and w: "unat Q dvd 2 ^ 32 \<or> length (pushed c') < 2 ^ 32"
  shows "bounded Q c'"
proof (cases x)
  case (Push v)
  show ?thesis
  proof (cases "fst (push Q keep v (queue_of c))")
    case True
    then have nf: "countToIndex Q (m_writeIndex (queue_of c) + 1) \<noteq> countToIndex Q (m_readIndex (queue_of c))"
      by (auto simp: push_returns split: if_splits)
    from True a Push have p': "pushed c' = pushed c @ [v]" "popped c' = popped c"
      by (auto simp: apply_op_def split: prod.splits)
    with w have "unat Q dvd 2 ^ 32 \<or> Suc (length (pushed c)) < 2 ^ 32" by simp
    from push_full_iff [OF t b this] nf have "Suc (length (pushed c)) - length (popped c) \<noteq> unat Q" by simp
    with b p' show ?thesis by (auto simp: bounded_def)
  next
    case False
    with a Push have "pushed c' = pushed c" "popped c' = popped c"
      by (auto simp: apply_op_def split: prod.splits)
    with b show ?thesis by (simp add: bounded_def)
  qed
next
  case Pop
  show ?thesis
  proof (cases "countToIndex Q (m_readIndex (queue_of c)) = countToIndex Q (m_writeIndex (queue_of c))")
    case True
    with a Pop have "pushed c' = pushed c" "popped c' = popped c"
      by (auto simp: apply_op_def pop_returns)
    with b show ?thesis by (simp add: bounded_def)
  next
    case False
    with a Pop have p': "pushed c' = pushed c" "length (popped c') = Suc (length (popped c))"
      by (auto simp: apply_op_def pop_returns)
    with w have "unat Q dvd 2 ^ 32 \<or> length (pushed c) < 2 ^ 32" by simp
    from pop_empty_iff [OF t b this] False have "length (pushed c) \<noteq> length (popped c)" by simp
    with b p' show ?thesis by (auto simp: bounded_def)
  qed
next
  case Full
  with a b show ?thesis by (auto simp: apply_op_def bounded_def)
next
  case Size
  with a b show ?thesis by (auto simp: apply_op_def bounded_def)
qed

lemma exec_tracks:
  "exec Q keep xs c = Some c' \<Longrightarrow> tracks keep c \<Longrightarrow> tracks keep c'"
  by (induction xs arbitrary: c) (auto split: option.splits dest: apply_op_tracks)

lemma exec_pushed_mono:
  "exec Q keep xs c = Some c' \<Longrightarrow> length (pushed c) \<le> length (pushed c')"
proof (induction xs arbitrary: c)
  case Nil then show ?case by simp
next
  case (Cons x xs)
  then obtain c1 where 1: "apply_op Q keep x c = Some c1" and 2: "exec Q keep xs c1 = Some c'"
    by (auto split: option.splits)
  from apply_op_pushed_mono [OF 1] Cons.IH [OF 2] show ?case by simp
qed

lemma exec_bounded:
  assumes "exec Q keep xs c = Some c'" "tracks keep c" "bounded Q c"
    "unat Q dvd 2 ^ 32 \<or> length (pushed c') < 2 ^ 32"
  shows "bounded Q c'"
  using assms
proof (induction xs arbitrary: c)
  case Nil then show ?case by simp
next
  case (Cons x xs)
  then obtain c1 where 1: "apply_op Q keep x c = Some c1" and 2: "exec Q keep xs c1 = Some c'"
    by (auto split: option.splits)
  have "length (pushed c1) \<le> length (pushed c')" using 2 by (rule exec_pushed_mono)
  with Cons.prems(4) have "unat Q dvd 2 ^ 32 \<or> length (pushed c1) < 2 ^ 32" by auto
  from apply_op_bounded [OF 1 Cons.prems(2,3) this] have "bounded Q c1" .
  moreover have "tracks keep c1" using 1 Cons.prems(2) by (rule apply_op_tracks)
  ultimately show ?case using Cons.IH [OF 2] Cons.prems(4) by simp
qed

lemma fresh_tracks: "tracks keep (fresh arr d)"
  by (simp add: tracks_def fresh_def ArrayLockFreeQueueBase_def)

lemma fresh_bounded: "Q \<noteq> 0 \<Longrightarrow> bounded Q (fresh arr d)"
  by (simp add: bounded_def fresh_def unat_gt_0)

section \<open>The index difference and the count\<close>


lemma unat_of_nat_small: "n < 2 ^ 32 \<Longrightarrow> unat (of_nat n :: uint32) = n"
  by (simp add: unat_of_nat)

lemma unat_lt_2p32: "unat (Q :: uint32) < 2 ^ 32"
  using unsigned_less [of Q, where 'a = nat] by simp

lemma gap_eq_live:
  assumes t: "tracks keep c" and b: "bounded Q c"
  shows "unat (m_writeIndex (queue_of c) - m_readIndex (queue_of c)) = live c"
proof -
  let ?P = "length (pushed c)" and ?R = "length (popped c)"
  have RP: "?R \<le> ?P" "?P - ?R < unat Q" using b by (auto simp: bounded_def)
  have "m_writeIndex (queue_of c) - m_readIndex (queue_of c) = of_nat ?P - of_nat ?R"
    using t by (simp add: tracks_def)
  also have "\<dots> = of_nat (?P - ?R)" using RP(1) by simp
  finally have "unat (m_writeIndex (queue_of c) - m_readIndex (queue_of c)) = unat (of_nat (?P - ?R) :: uint32)"
    by simp
  also have "\<dots> = ?P - ?R"
    using RP(2) unat_lt_2p32 [of Q] by (intro unat_of_nat_small) simp
  finally show ?thesis by (simp add: live_def)
qed

lemma count_eq_live:
  assumes t: "tracks True c" and b: "bounded Q c"
  shows "unat (m_count (queue_of c)) = live c"
proof -
  have "m_count (queue_of c) = m_writeIndex (queue_of c) - m_readIndex (queue_of c)"
    using t by (simp add: tracks_def)
  then show ?thesis using gap_eq_live [OF t b] by simp
qed

lemma full_keep_iff:
  assumes t: "tracks True c" and b: "bounded Q c" and q: "Q \<noteq> 0"
  shows "full Q True (queue_of c) \<longleftrightarrow> Suc (length (pushed c)) - length (popped c) = unat Q"
proof -
  let ?P = "length (pushed c)" and ?R = "length (popped c)"
  have RP: "?R \<le> ?P" "?P - ?R < unat Q" using b by (auto simp: bounded_def)
  have "full Q True (queue_of c) \<longleftrightarrow> m_count (queue_of c) = Q - 1" by (simp add: full_def)
  also have "\<dots> \<longleftrightarrow> unat (m_count (queue_of c)) = unat (Q - 1)" by (simp add: word_unat_eq_iff)
  also have "\<dots> \<longleftrightarrow> live c = unat Q - 1"
    using count_eq_live [OF t b] q by (simp add: unat_minus_one)
  also have "\<dots> \<longleftrightarrow> Suc ?P - ?R = unat Q"
  proof -
    have "0 < unat Q" using q by (simp add: unat_gt_0)
    with RP show ?thesis unfolding live_def by arith
  qed
  finally show ?thesis .
qed

section \<open>Single operations of the caller\<close>


lemma write_slot:
  assumes "tracks keep c" "unat Q dvd 2 ^ 32 \<or> length (pushed c) < 2 ^ 32"
  shows "unat (countToIndex Q (m_writeIndex (queue_of c))) = length (pushed c) mod unat Q"
  using assms by (simp add: tracks_def slot_of_nat)

lemma read_slot:
  assumes "tracks keep c" "unat Q dvd 2 ^ 32 \<or> length (popped c) < 2 ^ 32"
  shows "unat (countToIndex Q (m_readIndex (queue_of c))) = length (popped c) mod unat Q"
  using assms by (simp add: tracks_def slot_of_nat)

lemma push_step:
  assumes i: "inv Q keep c"
    and w: "unat Q dvd 2 ^ 32 \<or> Suc (length (pushed c)) < 2 ^ 32"
  shows "\<exists>c'. apply_op Q keep (Push v) c = Some c' \<and> inv Q keep c' \<and>
           a_data_of c' = a_data_of c \<and> popped c' = popped c \<and>
           (if Suc (length (pushed c)) - length (popped c) = unat Q
            then c' = c\<lparr>rets := rets c @ [PushRet False]\<rparr>
            else pushed c' = pushed c @ [v] \<and> rets c' = rets c @ [PushRet True])"
proof -
  let ?P = "length (pushed c)" and ?R = "length (popped c)" and ?q = "unat Q"
  from i have q: "Q \<noteq> 0" and t: "tracks keep c" and b: "bounded Q c" and f: "fifo Q c"
    by (auto simp: inv_def)
  have RP: "?R \<le> ?P" "?P - ?R < ?q" using b by (auto simp: bounded_def)
  have q0: "0 < ?q" using q by (simp add: unat_gt_0)
  note fi = push_full_iff [OF t b w]
  show ?thesis
  proof (cases "Suc ?P - ?R = ?q")
    case True
    with fi have "push Q keep v (queue_of c) = (False, queue_of c)" by (simp add: push_returns)
    then have "apply_op Q keep (Push v) c = Some (c\<lparr>rets := rets c @ [PushRet False]\<rparr>)"
      by (simp add: apply_op_def)
    moreover have "inv Q keep (c\<lparr>rets := rets c @ [PushRet False]\<rparr>)"
      using i by (simp add: inv_def tracks_def bounded_def fifo_def)
    ultimately show ?thesis using True by simp
  next
    case False
    obtain c' where a: "apply_op Q keep (Push v) c = Some c'" using apply_op_total by blast
    from False fi have ok: "fst (push Q keep v (queue_of c))" by (simp add: push_returns)
    with a have logs: "pushed c' = pushed c @ [v]" "popped c' = popped c"
      "rets c' = rets c @ [PushRet True]" "a_data_of c' = a_data_of c"
      by (auto simp: apply_op_def split: prod.splits)
    have w': "unat Q dvd 2 ^ 32 \<or> length (pushed c') < 2 ^ 32" using w logs by simp
    have wP: "unat Q dvd 2 ^ 32 \<or> ?P < 2 ^ 32" using w by auto
    have t': "tracks keep c'" using a t by (rule apply_op_tracks)
    have b': "bounded Q c'" using a t b w' by (rule apply_op_bounded)
    have buf: "m_theQueue (queue_of c') = (m_theQueue (queue_of c))[?P mod ?q := v]"
      using a ok fi False write_slot [OF t wP]
      by (auto simp: apply_op_def push_returns split: prod.splits if_splits)
    have len: "length (m_theQueue (queue_of c)) = ?q" using f by (simp add: fifo_def)
    have "fifo Q c'"
      unfolding fifo_def
    proof (intro conjI allI impI)
      show "length (m_theQueue (queue_of c')) = ?q" using buf len by simp
      show "popped c' = take (length (popped c')) (pushed c')"
        using f RP logs by (simp add: fifo_def)
      fix i assume "length (popped c') \<le> i \<and> i < length (pushed c')"
      then have i: "?R \<le> i" "i \<le> ?P" using logs by auto
      show "m_theQueue (queue_of c') ! (i mod ?q) = pushed c' ! i"
      proof (cases "i = ?P")
        case True
        then show ?thesis using buf len q0 logs by simp
      next
        case False
        with i have lt: "i < ?P" by simp
        have "?P - i < ?q" using RP i by arith
        with lt have "i mod ?q \<noteq> ?P mod ?q" using mod_eq_empty [of i ?P ?q] by simp
        then have "m_theQueue (queue_of c') ! (i mod ?q) = m_theQueue (queue_of c) ! (i mod ?q)"
          using buf by simp
        also have "\<dots> = pushed c ! i" using f i lt by (simp add: fifo_def)
        also have "\<dots> = pushed c' ! i" using logs lt by (simp add: nth_append)
        finally show ?thesis .
      qed
    qed
    with q t' b' have "inv Q keep c'" by (simp add: inv_def)
    with a logs False show ?thesis by simp
  qed
qed

lemma pop_step:
  assumes i: "inv Q keep c"
    and w: "unat Q dvd 2 ^ 32 \<or> length (pushed c) < 2 ^ 32"
  shows "\<exists>c'. apply_op Q keep Pop c = Some c' \<and> inv Q keep c' \<and> pushed c' = pushed c \<and>
           (if length (pushed c) = length (popped c)
            then c' = c\<lparr>rets := rets c @ [PopRet False (a_data_of c)]\<rparr>
            else a_data_of c' = pushed c ! length (popped c) \<and>
                 popped c' = popped c @ [pushed c ! length (popped c)] \<and>
                 rets c' = rets c @ [PopRet True (pushed c ! length (popped c))])"
proof -
  let ?P = "length (pushed c)" and ?R = "length (popped c)" and ?q = "unat Q"
  from i have q: "Q \<noteq> 0" and t: "tracks keep c" and b: "bounded Q c" and f: "fifo Q c"
    by (auto simp: inv_def)
  have RP: "?R \<le> ?P" "?P - ?R < ?q" using b by (auto simp: bounded_def)
  note ei = pop_empty_iff [OF t b w]
  show ?thesis
  proof (cases "?P = ?R")
    case True
    with ei have "apply_op Q keep Pop c = Some (c\<lparr>rets := rets c @ [PopRet False (a_data_of c)]\<rparr>)"
      by (simp add: apply_op_def pop_returns)
    moreover have "inv Q keep (c\<lparr>rets := rets c @ [PopRet False (a_data_of c)]\<rparr>)"
      using i by (simp add: inv_def tracks_def bounded_def fifo_def)
    ultimately show ?thesis using True by simp
  next
    case False
    with RP have lt: "?R < ?P" by simp
    have wR: "unat Q dvd 2 ^ 32 \<or> ?R < 2 ^ 32" using w RP by auto
    obtain c' where a: "apply_op Q keep Pop c = Some c'" using apply_op_total by blast
    have val: "m_theQueue (queue_of c) ! unat (countToIndex Q (m_readIndex (queue_of c))) = pushed c ! ?R"
      using f lt read_slot [OF t wR] by (simp add: fifo_def)
    from a False ei val have logs: "pushed c' = pushed c" "popped c' = popped c @ [pushed c ! ?R]"
      "rets c' = rets c @ [PopRet True (pushed c ! ?R)]" "a_data_of c' = pushed c ! ?R"
      "m_theQueue (queue_of c') = m_theQueue (queue_of c)"
      by (auto simp: apply_op_def pop_returns)
    have w': "unat Q dvd 2 ^ 32 \<or> length (pushed c') < 2 ^ 32" using w logs by simp
    have t': "tracks keep c'" using a t by (rule apply_op_tracks)
    have b': "bounded Q c'" using a t b w' by (rule apply_op_bounded)
    have pk: "popped c' = take (Suc ?R) (pushed c)"
      using f lt logs by (simp add: fifo_def take_Suc_conv_app_nth)
    have lk: "length (popped c') = Suc ?R" using logs by simp
    have "fifo Q c'"
      unfolding fifo_def
    proof (intro conjI allI impI)
      show "length (m_theQueue (queue_of c')) = ?q" using f logs by (simp add: fifo_def)
      show "popped c' = take (length (popped c')) (pushed c')"
        unfolding lk using pk logs(1) by simp
      fix i assume "length (popped c') \<le> i \<and> i < length (pushed c')"
      then have "?R \<le> i \<and> i < ?P" using lk logs(1) by simp
      then show "m_theQueue (queue_of c') ! (i mod ?q) = pushed c' ! i"
        using f logs(1,5) by (simp add: fifo_def)
    qed
    with q t' b' have "inv Q keep c'" by (simp add: inv_def)
    with a logs False show ?thesis by simp
  qed
qed

lemma fresh_inv: "Q \<noteq> 0 \<Longrightarrow> length arr = unat Q \<Longrightarrow> inv Q keep (fresh arr d)"
  by (simp add: inv_def fresh_tracks fresh_bounded) (simp add: fifo_def fresh_def ArrayLockFreeQueueBase_def)

section \<open>The capacity scenario\<close>


lemma full_iff:
  assumes i: "inv Q keep c"
    and w: "keep \<or> unat Q dvd 2 ^ 32 \<or> Suc (length (pushed c)) < 2 ^ 32"
  shows "full Q keep (queue_of c) \<longleftrightarrow> Suc (length (pushed c)) - length (popped c) = unat Q"
proof (cases keep)
  case True
  with i show ?thesis using full_keep_iff [of c Q] by (simp add: inv_def)
next
  case False
  with w have w': "unat Q dvd 2 ^ 32 \<or> Suc (length (pushed c)) < 2 ^ 32" by simp
  from i have "tracks keep c" "bounded Q c" by (auto simp: inv_def)
  from push_full_iff [OF this w'] False show ?thesis by (simp add: full_def)
qed

lemma full_step:
  assumes i: "inv Q keep c"
    and w: "keep \<or> unat Q dvd 2 ^ 32 \<or> Suc (length (pushed c)) < 2 ^ 32"
  shows "apply_op Q keep Full c =
           Some (c\<lparr>rets := rets c @ [FullRet (Suc (length (pushed c)) - length (popped c) = unat Q)]\<rparr>)
         \<and> inv Q keep (c\<lparr>rets := rets c @ [FullRet (Suc (length (pushed c)) - length (popped c) = unat Q)]\<rparr>)"
  using full_iff [OF i w] i by (simp add: apply_op_def inv_def tracks_def bounded_def fifo_def)

lemma push_run:
  assumes "inv Q keep c"
    and "unat Q dvd 2 ^ 32 \<or> length (pushed c) + length vs < 2 ^ 32"
    and "length (pushed c) + length vs - length (popped c) < unat Q"
  shows "\<exists>c'. exec Q keep (map Push vs) c = Some c' \<and> inv Q keep c' \<and>
           a_data_of c' = a_data_of c \<and> popped c' = popped c \<and>
           pushed c' = pushed c @ vs \<and>
           rets c' = rets c @ replicate (length vs) (PushRet True)"
  using assms
proof (induction vs arbitrary: c)
  case Nil
  then show ?case by simp
next
  case (Cons v vs)
  have w1: "unat Q dvd 2 ^ 32 \<or> Suc (length (pushed c)) < 2 ^ 32" using Cons.prems(2) by auto
  have RP: "length (popped c) \<le> length (pushed c)" using Cons.prems(1) by (simp add: inv_def bounded_def)
  have nf: "Suc (length (pushed c)) - length (popped c) \<noteq> unat Q" using Cons.prems(3) RP by simp
  from push_step [OF Cons.prems(1) w1, of v] nf
  obtain c1 where 1: "apply_op Q keep (Push v) c = Some c1" "inv Q keep c1"
    "a_data_of c1 = a_data_of c" "popped c1 = popped c" "pushed c1 = pushed c @ [v]"
    "rets c1 = rets c @ [PushRet True]"
    by auto
  have "\<exists>c'. exec Q keep (map Push vs) c1 = Some c' \<and> inv Q keep c' \<and>
           a_data_of c' = a_data_of c1 \<and> popped c' = popped c1 \<and>
           pushed c' = pushed c1 @ vs \<and>
           rets c' = rets c1 @ replicate (length vs) (PushRet True)"
    using Cons.prems(2,3) 1 by (intro Cons.IH) auto
  then obtain c' where 2: "exec Q keep (map Push vs) c1 = Some c'" "inv Q keep c'"
           "a_data_of c' = a_data_of c1" "popped c' = popped c1"
           "pushed c' = pushed c1 @ vs"
           "rets c' = rets c1 @ replicate (length vs) (PushRet True)" by blast
  have "rets c' = rets c @ replicate (length (v # vs)) (PushRet True)"
    using 1 2 by simp
  with 1 2 show ?case by simp
qed

lemma capacity_run:
  fixes N :: uint32 and vs :: "'a list"
  assumes N: "1 < N" and len: "length arr = unat N" and vs: "length vs = unat N - 1"
  shows "\<exists>c. exec N keep (capacity_ops vs x y z) (fresh arr d) = Some c \<and>
           rets c = replicate (unat N - 1) (PushRet True) @
                    [FullRet True, PushRet False, PopRet True (hd vs), PushRet True,
                     FullRet (N \<noteq> - 1 \<or> keep), PushRet (N = - 1)]"
proof -
  let ?n = "unat N"
  have n1: "1 < ?n" using N by (simp add: word_less_nat_alt)
  have n32: "?n < 2 ^ 32" by (rule unat_lt_2p32)
  have N0: "N \<noteq> 0" using N by auto
  have nm: "N = - 1 \<longleftrightarrow> ?n = 2 ^ 32 - 1"
  proof -
    have "N = - 1 \<longleftrightarrow> unat N = unat (- 1 :: uint32)" by (simp add: word_unat_eq_iff)
    moreover have "unat (- 1 :: uint32) = 2 ^ 32 - 1"
      by (simp add: unsigned_minus_1_eq_mask mask_eq_exp_minus_1)
    ultimately show ?thesis by simp
  qed
  have lt1: "(1::uint32) < - 1"
    by (simp add: word_less_nat_alt unsigned_minus_1_eq_mask mask_eq_exp_minus_1)
  have i0: "inv N keep (fresh arr d)" using N0 len by (rule fresh_inv)
  have l0: "pushed (fresh arr d) = []" "popped (fresh arr d) = []" "rets (fresh arr d) = []"
    "a_data_of (fresh arr d) = d"
    by (simp_all add: fresh_def)
  have lv: "Suc (length vs) < 2 ^ 32" "Suc (length vs) = ?n" using vs n32 n1 by arith+
  have h1: "unat N dvd 2 ^ 32 \<or> length (pushed (fresh arr d)) + length vs < 2 ^ 32"
    using lv l0 by simp
  have h2: "length (pushed (fresh arr d)) + length vs - length (popped (fresh arr d)) < unat N"
    using vs n1 l0 by simp
  from push_run [OF i0 h1 h2] vs l0
  obtain c1 where 1: "exec N keep (map Push vs) (fresh arr d) = Some c1" "inv N keep c1"
    "popped c1 = []" "pushed c1 = vs" "rets c1 = replicate (?n - 1) (PushRet True)"
    by auto
  have w1: "Suc (length (pushed c1)) < 2 ^ 32" using 1 lv by simp
  from full_step [OF 1(2), of ] w1 1 vs n1
  obtain c2 where 2: "apply_op N keep Full c1 = Some c2" "inv N keep c2"
    "popped c2 = []" "pushed c2 = vs" "rets c2 = replicate (?n - 1) (PushRet True) @ [FullRet True]"
    by auto
  have w2: "unat N dvd 2 ^ 32 \<or> Suc (length (pushed c2)) < 2 ^ 32" using w1 1 2 by simp
  from push_step [OF 2(2) w2, of x] 2 vs n1
  obtain c3 where 3: "apply_op N keep (Push x) c2 = Some c3" "inv N keep c3"
    "popped c3 = []" "pushed c3 = vs"
    "rets c3 = replicate (?n - 1) (PushRet True) @ [FullRet True, PushRet False]"
    by auto
  have w3: "unat N dvd 2 ^ 32 \<or> length (pushed c3) < 2 ^ 32" using w1 1 3 by simp
  have vs0: "vs \<noteq> []" using vs n1 by auto
  then have hd: "vs ! 0 = hd vs" by (simp add: hd_conv_nth)
  from pop_step [OF 3(2) w3] 3 vs n1 hd
  obtain c4 where 4: "apply_op N keep Pop c3 = Some c4" "inv N keep c4"
    "popped c4 = [hd vs]" "pushed c4 = vs"
    "rets c4 = replicate (?n - 1) (PushRet True) @ [FullRet True, PushRet False, PopRet True (hd vs)]"
    by auto
  have w4: "unat N dvd 2 ^ 32 \<or> Suc (length (pushed c4)) < 2 ^ 32" using w1 1 4 by simp
  from push_step [OF 4(2) w4, of y] 4 vs n1
  obtain c5 where 5: "apply_op N keep (Push y) c4 = Some c5" "inv N keep c5"
    "popped c5 = [hd vs]" "pushed c5 = vs @ [y]"
    "rets c5 = replicate (?n - 1) (PushRet True) @
               [FullRet True, PushRet False, PopRet True (hd vs), PushRet True]"
    by auto
  obtain c6 where 6: "apply_op N keep Full c5 = Some c6" using apply_op_total by blast
  obtain c7 where 7: "apply_op N keep (Push z) c6 = Some c7" using apply_op_total by blast
  have t5: "tracks keep c5" "bounded N c5" using 5(2) by (auto simp: inv_def)
  have P5: "length (pushed c5) = ?n" "length (popped c5) = 1" using 5 vs n1 by auto
  have f5: "full N keep (queue_of c5) \<longleftrightarrow> (N \<noteq> - 1 \<or> keep)"
  proof (cases "N = - 1 \<and> \<not> keep")
    case True
    then have "m_writeIndex (queue_of c5) + 1 = 0" "m_readIndex (queue_of c5) = 1"
      using t5(1) P5 nm by (simp_all add: tracks_def)
    then show ?thesis using True lt1 by (simp add: full_def countToIndex_def)
  next
    case False
    then have "keep \<or> unat N dvd 2 ^ 32 \<or> Suc (length (pushed c5)) < 2 ^ 32"
      using P5 nm n32 by auto
    from full_iff [OF 5(2) this] P5 False show ?thesis by auto
  qed
  have r6: "c6 = c5\<lparr>rets := rets c5 @ [FullRet (N \<noteq> - 1 \<or> keep)]\<rparr>"
    using 6 f5 by (simp add: apply_op_def)
  have p5: "fst (push N keep z (queue_of c5)) \<longleftrightarrow> N = - 1"
  proof (cases "N = - 1")
    case True
    then have "m_writeIndex (queue_of c5) + 1 = 0" "m_readIndex (queue_of c5) = 1"
      using t5(1) P5 nm by (simp_all add: tracks_def)
    then show ?thesis using True lt1 by (simp add: push_returns countToIndex_def)
  next
    case False
    then have "unat N dvd 2 ^ 32 \<or> Suc (length (pushed c5)) < 2 ^ 32"
      using P5 nm n32 by auto
    from push_full_iff [OF t5 this] P5 False show ?thesis by (auto simp: push_returns)
  qed
  have r7: "rets c7 = rets c6 @ [PushRet (N = - 1)]"
    using 7 p5 r6 by (auto simp: apply_op_def split: prod.splits)
  have "exec N keep (capacity_ops vs x y z) (fresh arr d) = Some c7"
    unfolding capacity_ops_def using 1(1) 2(1) 3(1) 4(1) 5(1) 6 7
    by (simp add: exec_append)
  moreover have "rets c7 = replicate (unat N - 1) (PushRet True) @
                    [FullRet True, PushRet False, PopRet True (hd vs), PushRet True,
                     FullRet (N \<noteq> - 1 \<or> keep), PushRet (N = - 1)]"
    using r7 r6 5(5) by simp
  ultimately show ?thesis by blast
qed

section \<open>Running the write index to the end of its range\<close>


lemma round_step:
  assumes i: "inv Q keep c"
    and ne: "length (pushed c) \<noteq> length (popped c)"
    and w: "Suc (length (pushed c)) < 2 ^ 32"
  shows "\<exists>c'. exec Q keep [Pop, Push v] c = Some c' \<and> inv Q keep c' \<and>
           length (pushed c') = Suc (length (pushed c)) \<and>
           length (popped c') = Suc (length (popped c))"
proof -
  have w0: "unat Q dvd 2 ^ 32 \<or> length (pushed c) < 2 ^ 32" using w by simp
  from pop_step [OF i w0] ne
  obtain c1 where 1: "apply_op Q keep Pop c = Some c1" "inv Q keep c1" "pushed c1 = pushed c"
    "popped c1 = popped c @ [pushed c ! length (popped c)]"
    by auto
  have b: "length (popped c) \<le> length (pushed c)" "length (pushed c) - length (popped c) < unat Q"
    using i by (auto simp: inv_def bounded_def)
  have nf: "Suc (length (pushed c1)) - length (popped c1) \<noteq> unat Q" using 1 b ne by simp
  have w1: "unat Q dvd 2 ^ 32 \<or> Suc (length (pushed c1)) < 2 ^ 32" using w 1 by simp
  from push_step [OF 1(2) w1, of v] nf
  obtain c2 where 2: "apply_op Q keep (Push v) c1 = Some c2" "inv Q keep c2"
    "popped c2 = popped c1" "pushed c2 = pushed c1 @ [v]"
    by auto
  have "exec Q keep [Pop, Push v] c = Some c2" using 1(1) 2(1) by simp
  with 1 2 show ?thesis by simp
qed

lemma cycles_Suc: "cycles (Suc k) v = [Pop, Push v] @ cycles k v"
  by (simp add: cycles_def)

lemma cycles_run:
  assumes "inv Q keep c"
    and "length (pushed c) \<noteq> length (popped c)"
    and "length (pushed c) + k < 2 ^ 32"
  shows "\<exists>c'. exec Q keep (cycles k v) c = Some c' \<and> inv Q keep c' \<and>
           length (pushed c') = length (pushed c) + k \<and>
           length (popped c') = length (popped c) + k"
  using assms
proof (induction k arbitrary: c)
  case 0
  then show ?case by (simp add: cycles_def)
next
  case (Suc k)
  have "Suc (length (pushed c)) < 2 ^ 32" using Suc.prems(3) by simp
  from round_step [OF Suc.prems(1,2) this, of v]
  obtain c1 where 1: "exec Q keep [Pop, Push v] c = Some c1" "inv Q keep c1"
    "length (pushed c1) = Suc (length (pushed c))" "length (popped c1) = Suc (length (popped c))"
    by blast
  have b: "length (popped c) \<le> length (pushed c)"
    using Suc.prems(1) by (auto simp: inv_def bounded_def)
  have "\<exists>c'. exec Q keep (cycles k v) c1 = Some c' \<and> inv Q keep c' \<and>
           length (pushed c') = length (pushed c1) + k \<and>
           length (popped c') = length (popped c1) + k"
    using 1 Suc.prems(2,3) by (intro Suc.IH) auto
  then obtain c' where 2: "exec Q keep (cycles k v) c1 = Some c'" "inv Q keep c'"
    "length (pushed c') = length (pushed c1) + k" "length (popped c') = length (popped c1) + k"
    by blast
  have "exec Q keep (cycles (Suc k) v) c = Some c'"
    unfolding cycles_Suc using 1(1) 2(1) by (simp only: exec_append option.case)
  with 1 2 show ?case by auto
qed

lemma run_past_wrap_3:
  assumes len: "length arr = 3"
  shows "\<exists>c. exec 3 keep (run_past_wrap v) (fresh arr d) = Some c \<and>
           m_writeIndex (queue_of c) = 0 \<and> m_readIndex (queue_of c) = 0xFFFFFFFD \<and>
           (keep \<longrightarrow> m_count (queue_of c) = 3) \<and>
           length (pushed c) = 2 ^ 32 \<and> length (popped c) = 2 ^ 32 - 3"
proof -
  have i0: "inv 3 keep (fresh arr d)" using len by (intro fresh_inv) simp_all
  have l0: "pushed (fresh arr d) = []" "popped (fresh arr d) = []" 
    by (simp_all add: fresh_def)
  from push_run [OF i0, of "[v, v]"] l0
  obtain c1 where 1: "exec 3 keep (map Push [v, v]) (fresh arr d) = Some c1" "inv 3 keep c1"
    "popped c1 = []" "pushed c1 = [v, v]"
    by auto
  have "\<exists>c'. exec 3 keep (cycles (2 ^ 32 - 3) v) c1 = Some c' \<and> inv 3 keep c' \<and>
           length (pushed c') = length (pushed c1) + (2 ^ 32 - 3) \<and>
           length (popped c') = length (popped c1) + (2 ^ 32 - 3)"
    using 1 by (intro cycles_run) simp_all
  then obtain c2 where 2: "exec 3 keep (cycles (2 ^ 32 - 3) v) c1 = Some c2" "inv 3 keep c2"
    "length (pushed c2) = 2 ^ 32 - 1" "length (popped c2) = 2 ^ 32 - 3"
    using 1 by auto
  have t2: "tracks keep c2" using 2(2) by (simp add: inv_def)
  have w2: "m_writeIndex (queue_of c2) = - 1" "m_readIndex (queue_of c2) = 0xFFFFFFFD"
    using t2 2(3,4) by (simp_all add: tracks_def)
  have k2: "keep \<Longrightarrow> m_count (queue_of c2) = 2"
    using t2 2(3,4) by (simp add: tracks_def)
  obtain c3 where 3: "apply_op 3 keep (Push v) c2 = Some c3" using apply_op_total by blast
  have ok: "push 3 keep v (queue_of c2) =
     (True, (queue_of c2)\<lparr>m_theQueue := (m_theQueue (queue_of c2))[unat (countToIndex 3 (- 1)) := v],
                    m_writeIndex := 0,
                    m_count := (if keep then m_count (queue_of c2) + 1 else m_count (queue_of c2))\<rparr>)"
    using w2 by (simp add: push_returns countToIndex_def)
  have r3: "m_writeIndex (queue_of c3) = 0" "m_readIndex (queue_of c3) = 0xFFFFFFFD"
    "length (pushed c3) = 2 ^ 32" "length (popped c3) = 2 ^ 32 - 3"
    "m_count (queue_of c3) = (if keep then m_count (queue_of c2) + 1 else m_count (queue_of c2))"
    using 3 ok w2 2(3,4) by (auto simp: apply_op_def)
  have t3: "tracks keep c3" using 3 t2 by (rule apply_op_tracks)
  have k3: "keep \<longrightarrow> m_count (queue_of c3) = 3"
    using k2 r3(5) by simp
  have e: "run_past_wrap v = map Push [v, v] @ cycles (2 ^ 32 - 3) v @ [Push v]"
    by (simp add: run_past_wrap_def)
  have "exec 3 keep (run_past_wrap v) (fresh arr d) = Some c3"
    unfolding e by (simp only: exec_append 1(1) 2(1) 3 option.case exec.simps)
  with r3 k3 show ?thesis by blast
qed


lemma unat_max32: "unat (- 1 :: uint32) = 2 ^ 32 - 1"
  by (simp add: unsigned_minus_1_eq_mask mask_eq_exp_minus_1)

section \<open>Runs from the fresh queue\<close>

lemma exec_from_fresh:
  assumes "Q \<noteq> 0"
  shows "\<exists>c. exec Q keep ops (fresh arr d) = Some c \<and> tracks keep c \<and>
           (unat Q dvd 2 ^ 32 \<or> length (pushed c) < 2 ^ 32 \<longrightarrow> bounded Q c)"
proof -
  obtain c where c: "exec Q keep ops (fresh arr d) = Some c" using exec_total by blast
  have t: "tracks keep c" using c fresh_tracks by (rule exec_tracks)
  have "bounded Q c" if "unat Q dvd 2 ^ 32 \<or> length (pushed c) < 2 ^ 32"
    using c fresh_tracks fresh_bounded [OF assms] that by (rule exec_bounded)
  with c t show ?thesis by blast
qed

lemma not_full_before:
  assumes i: "inv N keep c" and e: "pushed c = []" "popped c = []" "rets c = []"
    and k: "Suc (length vs) < unat N"
  shows "\<exists>c'. exec N keep (map Push vs @ [Full]) c = Some c' \<and>
           rets c' = replicate (length vs) (PushRet True) @ [FullRet False]"
proof -
  have n32: "unat N < 2 ^ 32" by (rule unat_lt_2p32)
  have lv: "Suc (length vs) < 2 ^ 32" using k n32 by arith
  have h1: "unat N dvd 2 ^ 32 \<or> length (pushed c) + length vs < 2 ^ 32" using lv e by simp
  have h2: "length (pushed c) + length vs - length (popped c) < unat N" using k e by simp
  from push_run [OF i h1 h2] e
  obtain c1 where 1: "exec N keep (map Push vs) c = Some c1" "inv N keep c1"
    "popped c1 = []" "pushed c1 = vs" "rets c1 = replicate (length vs) (PushRet True)"
    by auto
  have w1: "keep \<or> unat N dvd 2 ^ 32 \<or> Suc (length (pushed c1)) < 2 ^ 32" using 1 lv by simp
  have nf: "Suc (length (pushed c1)) - length (popped c1) \<noteq> unat N" using 1 k by simp
  from full_step [OF 1(2) w1] nf
  have 2: "apply_op N keep Full c1 = Some (c1\<lparr>rets := rets c1 @ [FullRet False]\<rparr>)" by simp
  have "exec N keep (map Push vs @ [Full]) c = Some (c1\<lparr>rets := rets c1 @ [FullRet False]\<rparr>)"
    by (simp only: exec_append 1(1) 2 option.case exec.simps)
  then show ?thesis using 1(5) by simp
qed

section \<open>A thread that runs alone performs the whole operation\<close>

text \<open>
  When no other thread moves in between, the steps of the producer amount to \<open>push\<close>
  and the steps of a consumer amount to \<open>pop\<close>.
\<close>

lemma producer_alone:
  assumes "producer y = P_idle"
  shows "\<not> fst (push Q keep v (shared y)) \<Longrightarrow>
         schedule Q keep [Call_push v, Producer, Producer] y = Some y"
    and "fst (push Q keep v (shared y)) \<Longrightarrow>
         schedule Q keep ([Call_push v, Producer, Producer, Producer, Producer] @
                          (if keep then [Producer] else [])) y =
           Some (y\<lparr>shared := snd (push Q keep v (shared y)),
                   pushed_values := pushed_values y @ [v]\<rparr>)"
  using assms
  by (auto simp add: make_move_def producer_step_def push_returns AtomicAdd_def Let_def
      split: if_splits)

lemma consumer_alone:
  assumes "t < length (consumers y)" "consumers y ! t = C_idle d"
  shows "pop Q keep (d, shared y) = Some (False, d', s') \<Longrightarrow>
           schedule Q keep [Call_pop t, Consumer t, Consumer t] y = Some y"
    and "pop Q keep (d, shared y) = Some (True, d', s') \<Longrightarrow>
         schedule Q keep ([Call_pop t, Consumer t, Consumer t, Consumer t, Consumer t] @ (if keep then [Consumer t] else [])) y =
           Some (y\<lparr>shared := s', consumers := (consumers y)[t := C_idle d'],
                   popped_values := popped_values y @ [d']\<rparr>)"
  using assms
  by (auto simp add: make_move_def consumer_step_def pop_returns CAS_def AtomicSub_def Let_def list_update_same_conv
      split: if_splits)

section \<open>Capacity\<close>

text \<open>
  C1 (as amended). For a queue of capacity \<open>N\<close> with \<open>1 < N < 2^32 - 1\<close>, starting from
  the freshly constructed state: \<open>N - 1\<close> consecutive calls of \<^verbatim>\<open>push\<close> return true,
  then \<^verbatim>\<open>full()\<close> returns true and the next \<^verbatim>\<open>push\<close> returns false; a \<^verbatim>\<open>pop\<close> then
  returns true and delivers the first value pushed; after it one \<^verbatim>\<open>push\<close> returns true,
  \<^verbatim>\<open>full()\<close> is true again and the following \<^verbatim>\<open>push\<close> returns false. After fewer than
  \<open>N - 1\<close> pushes \<^verbatim>\<open>full()\<close> returns false. This holds in both configurations.
\<close>

theorem capacity_boundary:
  fixes N :: uint32 and vs :: "'a list"
  assumes "1 < N" and "N \<noteq> - 1" and "length arr = unat N" and "length vs = unat N - 1"
  shows "(\<exists>c. exec N keep (capacity_ops vs x y z) (fresh arr d) = Some c \<and>
              rets c = replicate (unat N - 1) (PushRet True) @
                       [FullRet True, PushRet False, PopRet True (hd vs), PushRet True,
                        FullRet True, PushRet False]) \<and>
         (\<forall>k < unat N - 1.
            \<exists>c. exec N keep (map Push (take k vs) @ [Full]) (fresh arr d) = Some c \<and>
                rets c = replicate k (PushRet True) @ [FullRet False])"
proof (intro conjI allI impI)
  show "\<exists>c. exec N keep (capacity_ops vs x y z) (fresh arr d) = Some c \<and>
              rets c = replicate (unat N - 1) (PushRet True) @
                       [FullRet True, PushRet False, PopRet True (hd vs), PushRet True,
                        FullRet True, PushRet False]"
    using capacity_run [OF assms(1,3,4), of keep x y z d] assms(2) by simp
next
  fix k assume k: "k < unat N - 1"
  have N0: "N \<noteq> 0" using assms(1) by auto
  have i0: "inv N keep (fresh arr d)" using N0 assms(3) by (rule fresh_inv)
  have l: "length (take k vs) = k" using k assms(4) by simp
  have "\<exists>c'. exec N keep (map Push (take k vs) @ [Full]) (fresh arr d) = Some c' \<and>
           rets c' = replicate (length (take k vs)) (PushRet True) @ [FullRet False]"
    using k l by (intro not_full_before [OF i0]) (simp_all add: fresh_def)
  then show "\<exists>c. exec N keep (map Push (take k vs) @ [Full]) (fresh arr d) = Some c \<and>
                rets c = replicate k (PushRet True) @ [FullRet False]"
    unfolding l .
qed

theorem capacity_boundary_witness:
  "(1 :: uint32) < 4 \<and> (4 :: uint32) \<noteq> - 1 \<and> length [0, 0, 0, 0 :: nat] = unat (4 :: uint32) \<and>
   length [10, 20, 30 :: nat] = unat (4 :: uint32) - 1 \<and>
   map_option rets (exec 4 False (capacity_ops [10, 20, 30 :: nat] 40 50 60) (fresh [0, 0, 0, 0] 0)) =
     Some [PushRet True, PushRet True, PushRet True, FullRet True, PushRet False,
           PopRet True 10, PushRet True, FullRet True, PushRet False] \<and>
   (2 :: nat) < unat (4 :: uint32) - 1 \<and>
   map_option rets (exec 4 False (map Push (take 2 [10, 20, 30 :: nat]) @ [Full]) (fresh [0, 0, 0, 0] 0)) =
     Some [PushRet True, PushRet True, FullRet False]"
proof -
  have h1: "(1 :: uint32) < 4" by simp
  have h2: "(4 :: uint32) \<noteq> - 1" by simp
  have h3: "length [0, 0, 0, 0 :: nat] = unat (4 :: uint32)" by simp
  have h4: "length [10, 20, 30 :: nat] = unat (4 :: uint32) - 1" by simp
  have h5: "(2 :: nat) < unat (4 :: uint32) - 1" by simp
  note t = capacity_boundary [OF h1 h2 h3 h4, of False 40 50 60 0]
  from t obtain c where c: "exec 4 False (capacity_ops [10, 20, 30 :: nat] 40 50 60) (fresh [0, 0, 0, 0] 0) = Some c"
    "rets c = replicate (unat (4 :: uint32) - 1) (PushRet True) @
                       [FullRet True, PushRet False, PopRet True (hd [10, 20, 30 :: nat]), PushRet True,
                        FullRet True, PushRet False]"
    by blast
  from t h5 obtain c' where c': "exec 4 False (map Push (take 2 [10, 20, 30 :: nat]) @ [Full]) (fresh [0, 0, 0, 0 :: nat] 0) = Some c'"
    "rets c' = replicate 2 (PushRet True) @ [FullRet False]"
    by blast
  have u: "unat (4 :: uint32) - 1 = 3" by simp
  have r3: "replicate 3 (PushRet True :: nat ret) = [PushRet True, PushRet True, PushRet True]"
    by (simp add: numeral_3_eq_3)
  have r: "replicate (unat (4 :: uint32) - 1) (PushRet True :: nat ret) = [PushRet True, PushRet True, PushRet True]"
    "replicate 2 (PushRet True :: nat ret) = [PushRet True, PushRet True]"
    unfolding u r3 by (simp_all add: numeral_2_eq_2)
  have "map_option rets (exec 4 False (capacity_ops [10, 20, 30 :: nat] 40 50 60) (fresh [0, 0, 0, 0] 0)) =
     Some [PushRet True, PushRet True, PushRet True, FullRet True, PushRet False,
           PopRet True 10, PushRet True, FullRet True, PushRet False]"
    unfolding c(1) using c(2) r by simp
  moreover have "map_option rets (exec 4 False (map Push (take 2 [10, 20, 30 :: nat]) @ [Full]) (fresh [0, 0, 0, 0 :: nat] 0)) =
     Some [PushRet True, PushRet True, FullRet False]"
    unfolding c'(1) using c'(2) r by simp
  ultimately show ?thesis using h1 h2 h3 h4 h5 by blast
qed

text \<open>
  For \<open>N = 2^32 - 1\<close> the claim as first stated fails: after the pop, two more pushes
  return true, because \<^verbatim>\<open>m_writeIndex + 1\<close> wraps to \<open>0\<close> in the test of the second one.
\<close>

theorem capacity_boundary_counterexample:
  "map_option rets
     (exec 4294967295 False (capacity_ops (replicate 4294967294 0) 0 0 0)
        (fresh (replicate 4294967295 0) (0 :: nat))) =
   Some (replicate 4294967294 (PushRet True) @
         [FullRet True, PushRet False, PopRet True 0, PushRet True, FullRet False, PushRet True])"
proof -
  have m: "(4294967295 :: uint32) = - 1" by simp
  have h1: "(1 :: uint32) < - 1"
    by (simp add: word_less_nat_alt unat_max32)
  have h3: "length (replicate 4294967295 (0 :: nat)) = unat (- 1 :: uint32)"
    by (simp add: unat_max32)
  have h4: "length (replicate 4294967294 (0 :: nat)) = unat (- 1 :: uint32) - 1"
    by (simp add: unat_max32)
  from capacity_run [OF h1 h3 h4, of False 0 0 0 0]
  obtain c where c: "exec (- 1) False (capacity_ops (replicate 4294967294 0) 0 0 0)
        (fresh (replicate 4294967295 0) (0 :: nat)) = Some c"
    "rets c = replicate (unat (- 1 :: uint32) - 1) (PushRet True) @
                    [FullRet True, PushRet False, PopRet True (hd (replicate 4294967294 (0 :: nat))), PushRet True,
                     FullRet ((- 1 :: uint32) \<noteq> - 1 \<or> False), PushRet ((- 1 :: uint32) = - 1)]"
    by blast
  have hd: "hd (replicate 4294967294 (0 :: nat)) = 0" by (rule hd_replicate) simp
  show ?thesis unfolding m c(1) using c(2) hd by (simp add: unat_max32)
qed

section \<open>Several consumers\<close>

text \<open>
  C2. The claim is that the values delivered by successful pops, in the order of their
  compare-and-swap, are a prefix of the values pushed. The schedule
  \<open>stale_read_schedule\<close> refutes it for the code: \<^verbatim>\<open>pop\<close> reads \<^verbatim>\<open>m_writeIndex\<close> before
  \<^verbatim>\<open>m_readIndex\<close>, so consumer 0 compares a read index of 1 with a write index of 0 read
  earlier, takes the queue for non-empty although it is empty by then, and its
  compare-and-swap succeeds. One value was pushed, two pops succeed, the second delivers
  the initial content of slot 1, and \<^verbatim>\<open>m_readIndex\<close> ends ahead of \<^verbatim>\<open>m_writeIndex\<close>.
\<close>

theorem pop_race_delivers_unpushed_value:
  "schedule 4 False stale_read_schedule (start [0, 0, 0, 0] [0, 0]) =
     Some \<lparr>shared = \<lparr>m_theQueue = [7, 0, 0, 0], m_writeIndex = 1, m_readIndex = 2, m_count = 0\<rparr>,
           producer = P_idle, consumers = [C_idle 0, C_idle 7],
           pushed_values = [7], popped_values = [7, 0]\<rparr>"
  by (simp add: stale_read_schedule_def start_def make_move_def consumer_step_def producer_step_def
       ArrayLockFreeQueueBase_def countToIndex_def CAS_def AtomicAdd_def)

section \<open>The index normalisation\<close>

text \<open>
  C3 (as amended). For every \<^verbatim>\<open>Q_SIZE >= 1\<close> and every 32-bit counter value \<open>c\<close>,
  \<^verbatim>\<open>countToIndex\<close> returns \<open>c\<close> modulo \<^verbatim>\<open>Q_SIZE\<close>, a slot below \<^verbatim>\<open>Q_SIZE\<close>. For every
  \<open>c\<close> other than \<open>2^32 - 1\<close> the slot of \<open>c + 1\<close> is the cyclic successor of the slot
  of \<open>c\<close>. At the wrap of the counter from \<open>2^32 - 1\<close> to \<open>0\<close> this holds exactly
  when \<^verbatim>\<open>Q_SIZE\<close> divides \<open>2^32\<close>, that is, when it is a power of two.
\<close>

theorem countToIndex_successor:
  assumes "Q \<noteq> 0"
  shows "unat (countToIndex Q c) = unat c mod unat Q \<and>
         countToIndex Q c < Q \<and>
         (c \<noteq> - 1 \<longrightarrow>
            unat (countToIndex Q (c + 1)) = (unat (countToIndex Q c) + 1) mod unat Q) \<and>
         (unat (countToIndex Q (- 1 + 1)) = (unat (countToIndex Q (- 1)) + 1) mod unat Q
            \<longleftrightarrow> unat Q dvd 2 ^ 32)"
proof (intro conjI impI)
  have q: "0 < unat Q" using assms by (simp add: unat_gt_0)
  show "unat (countToIndex Q c) = unat c mod unat Q" by (rule unat_countToIndex)
  show "countToIndex Q c < Q"
    using q by (simp add: word_less_nat_alt unat_countToIndex)
  show "unat (countToIndex Q (c + 1)) = (unat (countToIndex Q c) + 1) mod unat Q" if "c \<noteq> - 1"
  proof -
    have "1 + c \<noteq> 0" using that by (metis add.commute add_eq_0_iff)
    then have "unat (c + 1) = Suc (unat c)" using unatSuc [of c] by (simp add: add.commute)
    then show ?thesis by (simp add: unat_countToIndex mod_Suc_eq)
  qed
  have "(unat (countToIndex Q (- 1)) + 1) mod unat Q = ((2 ^ 32 - 1) mod unat Q + 1) mod unat Q"
    by (simp add: unat_countToIndex unat_max32)
  also have "\<dots> = ((2 ^ 32 - 1) + 1) mod unat Q" by (rule mod_add_left_eq)
  also have "\<dots> = 2 ^ 32 mod unat Q" by simp
  finally have r: "(unat (countToIndex Q (- 1)) + 1) mod unat Q = 2 ^ 32 mod unat Q" .
  have l: "unat (countToIndex Q (- 1 + 1)) = 0" by (simp add: unat_countToIndex)
  show "unat (countToIndex Q (- 1 + 1)) = (unat (countToIndex Q (- 1)) + 1) mod unat Q
            \<longleftrightarrow> unat Q dvd 2 ^ 32"
    unfolding l r by (auto simp: dvd_eq_mod_eq_0)
qed

theorem countToIndex_successor_witness:
  "(6 :: uint32) \<noteq> 0 \<and> (11 :: uint32) \<noteq> - 1 \<and>
   unat (countToIndex 6 11) = unat (11 :: uint32) mod unat (6 :: uint32) \<and>
   countToIndex 6 11 < 6 \<and>
   unat (countToIndex 6 (11 + 1)) = (unat (countToIndex 6 11) + 1) mod unat (6 :: uint32) \<and>
   \<not> unat (6 :: uint32) dvd 2 ^ 32 \<and>
   unat (countToIndex 6 (- 1 + 1)) \<noteq> (unat (countToIndex 6 (- 1)) + 1) mod unat (6 :: uint32)"
proof -
  have h: "(6 :: uint32) \<noteq> 0" by simp
  have g: "(11 :: uint32) \<noteq> - 1" by simp
  have d: "\<not> unat (6 :: uint32) dvd 2 ^ 32" by simp
  from countToIndex_successor [OF h, of 11] g d h show ?thesis by blast
qed

text \<open>
  The claim as first stated, for every \<^verbatim>\<open>Q_SIZE >= 1\<close>, fails for \<^verbatim>\<open>Q_SIZE = 3\<close> at
  the wrap: both \<open>2^32 - 1\<close> and \<open>0\<close> are in slot 0.
\<close>

theorem countToIndex_wrap_counterexample:
  "unat (countToIndex 3 (4294967295 + 1)) \<noteq> (unat (countToIndex 3 4294967295) + 1) mod unat (3 :: uint32)"
  by (simp add: countToIndex_def)

section \<open>Size and fullness\<close>

text \<open>
  C4. Without the exact count, \<^verbatim>\<open>size()\<close> reads \<^verbatim>\<open>m_writeIndex\<close>, then \<^verbatim>\<open>m_readIndex\<close>,
  and returns their difference when the write index is not below the read index, and
  \<^verbatim>\<open>Q_SIZE + m_writeIndex - m_readIndex\<close> otherwise; as numbers, when the read snapshot
  is ahead by at most \<^verbatim>\<open>Q_SIZE\<close>, that is \<^verbatim>\<open>Q_SIZE\<close> minus the lead. Consequently a
  snapshot pair taken across other threads' operations can report an almost full
  queue: with eight slots, the write index read when the indices are 3 and 2 and the read
  index read after two more pushes and pops, when they are 5 and 4, give 7, although one
  element is live at both moments and an undisturbed \<^verbatim>\<open>size()\<close> returns 1 at both.
\<close>

theorem size_by_snapshot:
  "size_q Q False s =
     (if m_readIndex s \<le> m_writeIndex s then m_writeIndex s - m_readIndex s
      else Q + m_writeIndex s - m_readIndex s) \<and>
   size_q Q False s = size_of_snapshot Q (m_writeIndex s) (m_readIndex s) \<and>
   (unat cr - unat cw \<le> unat Q \<longrightarrow>
      unat (size_of_snapshot Q cw cr) =
        (if unat cr \<le> unat cw then unat cw - unat cr else unat Q - (unat cr - unat cw))) \<and>
   (\<exists>c1 c2. exec 8 False [Push 1, Push 2, Push 3, Pop, Pop, Size] (fresh (replicate 8 0) (0::nat)) = Some c1 \<and>
            exec 8 False [Push 4, Pop, Push 5, Pop, Size] c1 = Some c2 \<and>
            m_writeIndex (queue_of c1) = 3 \<and> m_readIndex (queue_of c1) = 2 \<and>
            live c1 = 1 \<and> last (rets c1) = SizeRet 1 \<and>
            m_writeIndex (queue_of c2) = 5 \<and> m_readIndex (queue_of c2) = 4 \<and>
            live c2 = 1 \<and> last (rets c2) = SizeRet 1 \<and>
            m_writeIndex (queue_of c1) < m_readIndex (queue_of c2) \<and>
            size_of_snapshot 8 (m_writeIndex (queue_of c1)) (m_readIndex (queue_of c2)) = 7)"
proof (intro conjI impI)
  show "size_q Q False s =
     (if m_readIndex s \<le> m_writeIndex s then m_writeIndex s - m_readIndex s
      else Q + m_writeIndex s - m_readIndex s)"
    by (simp add: size_q_def size_of_snapshot_def)
  show "size_q Q False s = size_of_snapshot Q (m_writeIndex s) (m_readIndex s)"
    by (simp add: size_q_def)
  show "unat (size_of_snapshot Q cw cr) =
        (if unat cr \<le> unat cw then unat cw - unat cr else unat Q - (unat cr - unat cw))"
    if h: "unat cr - unat cw \<le> unat Q"
  proof (cases "unat cr \<le> unat cw")
    case True
    then show ?thesis by (simp add: size_of_snapshot_def word_le_nat_alt unat_sub)
  next
    case False
    have lt: "\<not> cr \<le> cw" using False by (simp add: word_le_nat_alt)
    have le: "cw \<le> cr" using False by (simp add: word_le_nat_alt)
    have d: "unat (cr - cw) = unat cr - unat cw" using le by (rule unat_sub)
    have le2: "cr - cw \<le> Q" using h d by (simp add: word_le_nat_alt)
    have "size_of_snapshot Q cw cr = Q + cw - cr" using lt by (simp add: size_of_snapshot_def)
    also have "\<dots> = Q - (cr - cw)" by simp
    finally have "unat (size_of_snapshot Q cw cr) = unat (Q - (cr - cw))" by (rule arg_cong)
    also have "\<dots> = unat Q - unat (cr - cw)" using le2 by (rule unat_sub)
    finally show ?thesis unfolding d using False by simp
  qed
  show "\<exists>c1 c2. exec 8 False [Push 1, Push 2, Push 3, Pop, Pop, Size] (fresh (replicate 8 0) (0::nat)) = Some c1 \<and>
            exec 8 False [Push 4, Pop, Push 5, Pop, Size] c1 = Some c2 \<and>
            m_writeIndex (queue_of c1) = 3 \<and> m_readIndex (queue_of c1) = 2 \<and>
            live c1 = 1 \<and> last (rets c1) = SizeRet 1 \<and>
            m_writeIndex (queue_of c2) = 5 \<and> m_readIndex (queue_of c2) = 4 \<and>
            live c2 = 1 \<and> last (rets c2) = SizeRet 1 \<and>
            m_writeIndex (queue_of c1) < m_readIndex (queue_of c2) \<and>
            size_of_snapshot 8 (m_writeIndex (queue_of c1)) (m_readIndex (queue_of c2)) = 7"
    by (simp add: fresh_def ArrayLockFreeQueueBase_def apply_op_def push_returns pop_returns
          countToIndex_def live_def size_of_snapshot_def size_q_def)
qed

theorem size_by_snapshot_witness:
  "unat (4 :: uint32) - unat (3 :: uint32) \<le> unat (8 :: uint32) \<and>
   unat (size_of_snapshot 8 3 4) = 7 \<and>
   size_q 8 False \<lparr>m_theQueue = replicate 8 (0::nat), m_writeIndex = 3, m_readIndex = 4, m_count = 0\<rparr> = 7"
proof -
  let ?s = "\<lparr>m_theQueue = replicate 8 (0::nat), m_writeIndex = 3, m_readIndex = 4, m_count = 0\<rparr>"
  have h: "unat (4 :: uint32) - unat (3 :: uint32) \<le> unat (8 :: uint32)" by simp
  from size_by_snapshot [of 8 ?s 4 3]
  have 1: "size_q 8 False ?s = size_of_snapshot 8 (m_writeIndex ?s) (m_readIndex ?s)"
    and 2: "unat (4 :: uint32) - unat (3 :: uint32) \<le> unat (8 :: uint32) \<longrightarrow>
      unat (size_of_snapshot 8 3 4) =
        (if unat (4 :: uint32) \<le> unat (3 :: uint32) then unat (3 :: uint32) - unat (4 :: uint32)
         else unat (8 :: uint32) - (unat (4 :: uint32) - unat (3 :: uint32)))"
    by blast+
  from 2 h have 3: "unat (size_of_snapshot 8 3 4) = 7" by simp
  then have "size_of_snapshot 8 3 4 = 7" by (simp add: word_unat_eq_iff)
  with 1 have "size_q 8 False ?s = 7" by simp
  with h 3 show ?thesis by blast
qed

text \<open>
  C5 (as amended). Without the exact count, \<^verbatim>\<open>full()\<close> returns true exactly when
  \<^verbatim>\<open>countToIndex(m_writeIndex + 1) == countToIndex(m_readIndex)\<close>, on every state. With
  the exact count, \<^verbatim>\<open>full()\<close> compares \<^verbatim>\<open>m_count\<close> with \<^verbatim>\<open>Q_SIZE - 1\<close>; on every state
  reached from the fresh queue by a sequence of operations this agrees with the index
  relation, provided \<^verbatim>\<open>Q_SIZE\<close> divides \<open>2^32\<close> or fewer than \<open>2^32 - 1\<close> pushes have
  succeeded.
\<close>

theorem full_matches_index_relation:
  assumes "Q \<noteq> 0"
  shows "(full Q False s \<longleftrightarrow> index_full Q s) \<and>
         (\<exists>c. exec Q keep ops (fresh arr d) = Some c \<and>
            (\<not> keep \<or> unat Q dvd 2 ^ 32 \<or> Suc (length (pushed c)) < 2 ^ 32 \<longrightarrow>
               (full Q keep (queue_of c) \<longleftrightarrow> index_full Q (queue_of c))))"
proof
  show "full Q False s \<longleftrightarrow> index_full Q s" by (simp add: full_def index_full_def)
  from exec_from_fresh [OF assms, of keep ops arr d]
  obtain c where c: "exec Q keep ops (fresh arr d) = Some c" "tracks keep c"
    "unat Q dvd 2 ^ 32 \<or> length (pushed c) < 2 ^ 32 \<longrightarrow> bounded Q c"
    by blast
  have "full Q keep (queue_of c) \<longleftrightarrow> index_full Q (queue_of c)"
    if h: "\<not> keep \<or> unat Q dvd 2 ^ 32 \<or> Suc (length (pushed c)) < 2 ^ 32"
  proof (cases keep)
    case False
    then show ?thesis by (simp add: full_def index_full_def)
  next
    case True
    with h have w: "unat Q dvd 2 ^ 32 \<or> Suc (length (pushed c)) < 2 ^ 32" by simp
    then have "unat Q dvd 2 ^ 32 \<or> length (pushed c) < 2 ^ 32" by auto
    with c(3) have b: "bounded Q c" by blast
    have t: "tracks True c" using c(2) True by simp
    have "full Q True (queue_of c) \<longleftrightarrow> Suc (length (pushed c)) - length (popped c) = unat Q"
      using t b assms by (rule full_keep_iff)
    moreover have "index_full Q (queue_of c) \<longleftrightarrow> Suc (length (pushed c)) - length (popped c) = unat Q"
      unfolding index_full_def using c(2) b w by (rule push_full_iff)
    ultimately show ?thesis using True by simp
  qed
  with c(1) show "\<exists>c. exec Q keep ops (fresh arr d) = Some c \<and>
            (\<not> keep \<or> unat Q dvd 2 ^ 32 \<or> Suc (length (pushed c)) < 2 ^ 32 \<longrightarrow>
               (full Q keep (queue_of c) \<longleftrightarrow> index_full Q (queue_of c)))"
    by blast
qed

theorem full_matches_index_relation_witness:
  "(6 :: uint32) \<noteq> 0 \<and>
   map_option (length \<circ> pushed) (exec 6 True (map Push [1, 2, 3, 4, 5 :: nat]) (fresh [0, 0, 0, 0, 0, 0] 0)) = Some 5 \<and>
   Suc 5 < (2 :: nat) ^ 32 \<and>
   map_option (full 6 True \<circ> queue_of) (exec 6 True (map Push [1, 2, 3, 4, 5 :: nat]) (fresh [0, 0, 0, 0, 0, 0] 0)) = Some True \<and>
   map_option (index_full 6 \<circ> queue_of) (exec 6 True (map Push [1, 2, 3, 4, 5 :: nat]) (fresh [0, 0, 0, 0, 0, 0] 0)) = Some True"
proof -
  let ?e = "exec 6 True (map Push [1, 2, 3, 4, 5 :: nat]) (fresh [0, 0, 0, 0, 0, 0] 0)"
  have h: "(6 :: uint32) \<noteq> 0" by simp
  from full_matches_index_relation [OF h, of _ True "map Push [1, 2, 3, 4, 5 :: nat]" "[0, 0, 0, 0, 0, 0]" 0]
  obtain c where c: "?e = Some c"
    "\<not> True \<or> unat (6 :: uint32) dvd 2 ^ 32 \<or> Suc (length (pushed c)) < 2 ^ 32 \<longrightarrow>
               (full 6 True (queue_of c) \<longleftrightarrow> index_full 6 (queue_of c))"
    by blast
  have p: "map_option (length \<circ> pushed) ?e = Some 5"
    by (simp add: fresh_def ArrayLockFreeQueueBase_def apply_op_def push_returns countToIndex_def)
  have i: "map_option (index_full 6 \<circ> queue_of) ?e = Some True"
    by (simp add: fresh_def ArrayLockFreeQueueBase_def apply_op_def push_returns countToIndex_def
          index_full_def)
  from p c(1) have l: "length (pushed c) = 5" by simp
  from i c(1) have "index_full 6 (queue_of c)" by simp
  with c(2) l have "full 6 True (queue_of c)" by simp
  with c(1) have f: "map_option (full 6 True \<circ> queue_of) ?e = Some True" by simp
  from h p i f show ?thesis by simp
qed

text \<open>
  With the exact count and \<^verbatim>\<open>Q_SIZE = 3\<close>, after the run that takes \<^verbatim>\<open>m_writeIndex\<close>
  past \<open>2^32 - 1\<close> the count is 3, so \<^verbatim>\<open>full()\<close> returns false, while the index
  relation holds.
\<close>

theorem full_index_relation_counterexample:
  "map_option (full 3 True \<circ> queue_of) (exec 3 True (run_past_wrap 0) (fresh [0, 0, 0] (0 :: nat))) = Some False \<and>
   map_option (index_full 3 \<circ> queue_of) (exec 3 True (run_past_wrap 0) (fresh [0, 0, 0] (0 :: nat))) = Some True"
proof -
  have "length [0, 0, 0 :: nat] = 3" by simp
  from run_past_wrap_3 [OF this, of True 0 0]
  obtain c where c: "exec 3 True (run_past_wrap 0) (fresh [0, 0, 0] (0 :: nat)) = Some c"
    "m_writeIndex (queue_of c) = 0" "m_readIndex (queue_of c) = 0xFFFFFFFD"
    "m_count (queue_of c) = 3"
    by auto
  show ?thesis unfolding c(1) using c(2,3,4)
    by (simp add: full_def index_full_def countToIndex_def)
qed

section \<open>Failure and success of push and pop\<close>

text \<open>
  C6. Whenever \<^verbatim>\<open>countToIndex(m_writeIndex + 1) == countToIndex(m_readIndex)\<close>, \<^verbatim>\<open>push\<close>
  returns false and leaves the whole state as it was: the array, both indices and the
  count.
\<close>

theorem push_on_full_queue:
  assumes "countToIndex Q (m_writeIndex s + 1) = countToIndex Q (m_readIndex s)"
  shows "push Q keep v s = (False, s)"
  using assms by (simp add: push_returns)

theorem push_on_full_queue_witness:
  "countToIndex 4 (m_writeIndex \<lparr>m_theQueue = [10, 20, 30, 0::nat], m_writeIndex = 3,
                                 m_readIndex = 0, m_count = 3\<rparr> + 1) =
   countToIndex 4 (m_readIndex \<lparr>m_theQueue = [10, 20, 30, 0::nat], m_writeIndex = 3,
                                m_readIndex = 0, m_count = 3\<rparr>) \<and>
   push 4 True 40 \<lparr>m_theQueue = [10, 20, 30, 0::nat], m_writeIndex = 3, m_readIndex = 0, m_count = 3\<rparr> =
     (False, \<lparr>m_theQueue = [10, 20, 30, 0], m_writeIndex = 3, m_readIndex = 0, m_count = 3\<rparr>)"
proof -
  let ?s = "\<lparr>m_theQueue = [10, 20, 30, 0::nat], m_writeIndex = 3, m_readIndex = 0, m_count = 3\<rparr>"
  have h: "countToIndex 4 (m_writeIndex ?s + 1) = countToIndex 4 (m_readIndex ?s)"
    by (simp add: countToIndex_def)
  from h push_on_full_queue [OF h, of True 40] show ?thesis by simp
qed

text \<open>
  C7. Whenever the slot of \<^verbatim>\<open>m_readIndex\<close> equals the slot of \<^verbatim>\<open>m_writeIndex\<close>, the first
  pass through the loop of \<^verbatim>\<open>pop\<close> ends at the \<^verbatim>\<open>return false\<close> of the emptiness test,
  so there is no retry and the compare-and-swap is not reached; \<^verbatim>\<open>pop\<close> returns false,
  and the caller's variable, the array, both indices and the count are unchanged. In the
  interleaved model the consumer goes from line 84 straight back to idle, and nothing
  shared changes.
\<close>

theorem pop_on_empty_queue:
  assumes "countToIndex Q (m_readIndex s) = countToIndex Q (m_writeIndex s)"
  shows "pop_iteration Q keep (d, s) = (ReturnEmpty, d, s) \<and>
         pop Q keep (d, s) = Some (False, d, s) \<and>
         (\<forall>y t. shared y = s \<and> t < length (consumers y) \<and>
                consumers y ! t = C_line84 d (m_writeIndex s) \<longrightarrow>
                consumer_step Q keep t y = Some (y\<lparr>consumers := (consumers y)[t := C_idle d]\<rparr>))"
  using assms by (auto simp add: pop_returns pop_iteration_def consumer_step_def)

theorem pop_on_empty_queue_witness:
  "countToIndex 4 (m_readIndex \<lparr>m_theQueue = [10, 20, 30, 0::nat], m_writeIndex = 6,
                                m_readIndex = 6, m_count = 0\<rparr>) =
   countToIndex 4 (m_writeIndex \<lparr>m_theQueue = [10, 20, 30, 0::nat], m_writeIndex = 6,
                                 m_readIndex = 6, m_count = 0\<rparr>) \<and>
   pop_iteration 4 False (5, \<lparr>m_theQueue = [10, 20, 30, 0::nat], m_writeIndex = 6, m_readIndex = 6, m_count = 0\<rparr>) =
     (ReturnEmpty, 5, \<lparr>m_theQueue = [10, 20, 30, 0], m_writeIndex = 6, m_readIndex = 6, m_count = 0\<rparr>) \<and>
   pop 4 False (5, \<lparr>m_theQueue = [10, 20, 30, 0::nat], m_writeIndex = 6, m_readIndex = 6, m_count = 0\<rparr>) =
     Some (False, 5, \<lparr>m_theQueue = [10, 20, 30, 0], m_writeIndex = 6, m_readIndex = 6, m_count = 0\<rparr>) \<and>
   consumer_step 4 False 0
     \<lparr>shared = \<lparr>m_theQueue = [10, 20, 30, 0::nat], m_writeIndex = 6, m_readIndex = 6, m_count = 0\<rparr>,
      producer = P_idle, consumers = [C_line84 5 6], pushed_values = [], popped_values = []\<rparr> =
     Some \<lparr>shared = \<lparr>m_theQueue = [10, 20, 30, 0::nat], m_writeIndex = 6, m_readIndex = 6, m_count = 0\<rparr>,
           producer = P_idle, consumers = [C_idle 5], pushed_values = [], popped_values = []\<rparr>"
proof -
  let ?s = "\<lparr>m_theQueue = [10, 20, 30, 0::nat], m_writeIndex = 6, m_readIndex = 6, m_count = 0\<rparr>"
  let ?y = "\<lparr>shared = ?s, producer = P_idle, consumers = [C_line84 5 6],
             pushed_values = [], popped_values = []\<rparr>"
  have h: "countToIndex 4 (m_readIndex ?s) = countToIndex 4 (m_writeIndex ?s)"
    by (simp add: countToIndex_def)
  have g: "shared ?y = ?s \<and> 0 < length (consumers ?y) \<and>
           consumers ?y ! 0 = C_line84 5 (m_writeIndex ?s)"
    by simp
  from pop_on_empty_queue [OF h, of False 5]
  have "pop_iteration 4 False (5, ?s) = (ReturnEmpty, 5, ?s)"
    and "pop 4 False (5, ?s) = Some (False, 5, ?s)"
    and "consumer_step 4 False 0 ?y = Some (?y\<lparr>consumers := (consumers ?y)[0 := C_idle 5]\<rparr>)"
    using g by blast+
  with h show ?thesis by simp
qed

text \<open>
  C8. Whenever the queue is not full, \<^verbatim>\<open>push\<close> returns true, the slot
  \<^verbatim>\<open>countToIndex(m_writeIndex)\<close> of the array holds the value, every other slot and
  \<^verbatim>\<open>m_readIndex\<close> are unchanged, \<^verbatim>\<open>m_writeIndex\<close> has grown by one, and so has
  \<^verbatim>\<open>m_count\<close> when it is kept. The steps come in this order: the producer that has read
  \<^verbatim>\<open>m_writeIndex\<close> first passes the test, then stores the value, then increments
  \<^verbatim>\<open>m_writeIndex\<close>, and only then increments \<^verbatim>\<open>m_count\<close>.
\<close>

theorem push_on_free_queue:
  assumes "countToIndex Q (m_writeIndex s + 1) \<noteq> countToIndex Q (m_readIndex s)"
    and "Q \<noteq> 0" and "length (m_theQueue s) = unat Q"
  shows "\<exists>s'. push Q keep v s = (True, s') \<and>
           unat (countToIndex Q (m_writeIndex s)) < length (m_theQueue s) \<and>
           m_theQueue s' = (m_theQueue s)[unat (countToIndex Q (m_writeIndex s)) := v] \<and>
           m_theQueue s' ! unat (countToIndex Q (m_writeIndex s)) = v \<and>
           (\<forall>i. i \<noteq> unat (countToIndex Q (m_writeIndex s)) \<longrightarrow> m_theQueue s' ! i = m_theQueue s ! i) \<and>
           m_writeIndex s' = m_writeIndex s + 1 \<and>
           m_readIndex s' = m_readIndex s \<and>
           m_count s' = (if keep then m_count s + 1 else m_count s) \<and>
           (\<forall>y. shared y = s \<and> producer y = P_line48 v (m_writeIndex s) \<longrightarrow>
              (\<exists>y1 y2 y3.
                 producer_step Q keep y = Some y1 \<and> shared y1 = s \<and>
                 producer_step Q keep y1 = Some y2 \<and>
                 shared y2 = s\<lparr>m_theQueue := m_theQueue s'\<rparr> \<and>
                 producer_step Q keep y2 = Some y3 \<and>
                 shared y3 = s\<lparr>m_theQueue := m_theQueue s', m_writeIndex := m_writeIndex s + 1\<rparr> \<and>
                 (if keep
                  then producer y3 = P_line66 v \<and>
                       map_option shared (producer_step Q keep y3) = Some s' \<and>
                       map_option producer (producer_step Q keep y3) = Some P_idle
                  else producer y3 = P_idle \<and> shared y3 = s')))"
proof -
  have q: "0 < unat Q" using assms(2) by (simp add: unat_gt_0)
  have lt: "unat (countToIndex Q (m_writeIndex s)) < length (m_theQueue s)"
    using q assms(3) by (simp add: unat_countToIndex)
  show ?thesis
    using assms(1) lt
    by (auto simp add: push_returns producer_step_def AtomicAdd_def)
qed

theorem push_on_free_queue_witness:
  "countToIndex 4 (m_writeIndex \<lparr>m_theQueue = [10, 20, 30, 0::nat], m_writeIndex = 5,
                                 m_readIndex = 4, m_count = 1\<rparr> + 1) \<noteq>
   countToIndex 4 (m_readIndex \<lparr>m_theQueue = [10, 20, 30, 0::nat], m_writeIndex = 5,
                                m_readIndex = 4, m_count = 1\<rparr>) \<and>
   (4 :: uint32) \<noteq> 0 \<and>
   length (m_theQueue \<lparr>m_theQueue = [10, 20, 30, 0::nat], m_writeIndex = 5,
                           m_readIndex = 4, m_count = 1\<rparr>) = unat (4 :: uint32) \<and>
   push 4 True 40 \<lparr>m_theQueue = [10, 20, 30, 0::nat], m_writeIndex = 5, m_readIndex = 4, m_count = 1\<rparr> =
     (True, \<lparr>m_theQueue = [10, 40, 30, 0], m_writeIndex = 6, m_readIndex = 4, m_count = 2\<rparr>)"
proof -
  let ?s = "\<lparr>m_theQueue = [10, 20, 30, 0::nat], m_writeIndex = 5, m_readIndex = 4, m_count = 1\<rparr>"
  have h1: "countToIndex 4 (m_writeIndex ?s + 1) \<noteq> countToIndex 4 (m_readIndex ?s)"
    by (simp add: countToIndex_def)
  have h2: "(4 :: uint32) \<noteq> 0" by simp
  have h3: "length (m_theQueue ?s) = unat (4 :: uint32)" by simp
  from push_on_free_queue [OF h1 h2 h3, of True 40]
  obtain s' where "push 4 True 40 ?s = (True, s')"
    and "m_theQueue s' = (m_theQueue ?s)[unat (countToIndex 4 (m_writeIndex ?s)) := 40]"
    and "m_writeIndex s' = m_writeIndex ?s + 1"
    and "m_readIndex s' = m_readIndex ?s"
    and "m_count s' = (if True then m_count ?s + 1 else m_count ?s)"
    by blast
  then have "push 4 True 40 ?s =
     (True, \<lparr>m_theQueue = [10, 40, 30, 0], m_writeIndex = 6, m_readIndex = 4, m_count = 2\<rparr>)"
    by (cases s') (simp add: countToIndex_def)
  with h1 h2 h3 show ?thesis by blast
qed

section \<open>The index difference\<close>

text \<open>
  C9 (as amended). On every state reached from the fresh queue by a sequence of
  operations, \<^verbatim>\<open>m_writeIndex - m_readIndex\<close> equals the number of successful pushes minus
  the number of successful pops modulo \<open>2^32\<close>, and \<^verbatim>\<open>m_count\<close>, when kept, equals
  \<^verbatim>\<open>m_writeIndex - m_readIndex\<close>. Provided \<^verbatim>\<open>Q_SIZE\<close> divides \<open>2^32\<close> or fewer than
  \<open>2^32\<close> pushes have succeeded, that difference is the number of elements pushed and
  not yet popped, it is at most \<^verbatim>\<open>Q_SIZE - 1\<close>, and \<^verbatim>\<open>m_count\<close> equals it.
\<close>

theorem index_gap_counts_live:
  assumes "Q \<noteq> 0"
  shows "\<exists>c. exec Q keep ops (fresh arr d) = Some c \<and>
           m_writeIndex (queue_of c) - m_readIndex (queue_of c) =
             of_nat (length (pushed c)) - of_nat (length (popped c)) \<and>
           (keep \<longrightarrow> m_count (queue_of c) = m_writeIndex (queue_of c) - m_readIndex (queue_of c)) \<and>
           (unat Q dvd 2 ^ 32 \<or> length (pushed c) < 2 ^ 32 \<longrightarrow>
              length (popped c) \<le> length (pushed c) \<and>
              index_gap c = live c \<and>
              live c \<le> unat Q - 1 \<and>
              (keep \<longrightarrow> unat (m_count (queue_of c)) = live c))"
proof -
  from exec_from_fresh [OF assms, of keep ops arr d]
  obtain c where c: "exec Q keep ops (fresh arr d) = Some c" "tracks keep c"
    "unat Q dvd 2 ^ 32 \<or> length (pushed c) < 2 ^ 32 \<longrightarrow> bounded Q c"
    by blast
  have 1: "m_writeIndex (queue_of c) - m_readIndex (queue_of c) =
             of_nat (length (pushed c)) - of_nat (length (popped c))"
    using c(2) by (simp add: tracks_def)
  have 2: "keep \<longrightarrow> m_count (queue_of c) = m_writeIndex (queue_of c) - m_readIndex (queue_of c)"
    using c(2) by (simp add: tracks_def)
  have 3: "length (popped c) \<le> length (pushed c) \<and> index_gap c = live c \<and>
           live c \<le> unat Q - 1 \<and> (keep \<longrightarrow> unat (m_count (queue_of c)) = live c)"
    if "unat Q dvd 2 ^ 32 \<or> length (pushed c) < 2 ^ 32"
  proof -
    from that c(3) have b: "bounded Q c" by blast
    have g: "index_gap c = live c" unfolding index_gap_def using c(2) b by (rule gap_eq_live)
    have "live c < unat Q" using b by (simp add: bounded_def live_def)
    then have l: "live c \<le> unat Q - 1" by simp
    have "length (popped c) \<le> length (pushed c)" using b by (simp add: bounded_def)
    moreover have "unat (m_count (queue_of c)) = live c" if keep
      using 2 that g by (simp add: index_gap_def)
    ultimately show ?thesis using g l by simp
  qed
  from c(1) 1 2 3 show ?thesis by blast
qed

theorem index_gap_counts_live_witness:
  "(4 :: uint32) \<noteq> 0 \<and> unat (4 :: uint32) dvd 2 ^ 32 \<and>
   map_option index_gap (exec 4 True [Push 10, Push 20, Pop, Push 30, Push 40, Push 50, Pop]
                           (fresh [0, 0, 0, 0 :: nat] 0)) = Some 2 \<and>
   map_option live (exec 4 True [Push 10, Push 20, Pop, Push 30, Push 40, Push 50, Pop]
                           (fresh [0, 0, 0, 0 :: nat] 0)) = Some 2 \<and>
   map_option (m_count \<circ> queue_of) (exec 4 True [Push 10, Push 20, Pop, Push 30, Push 40, Push 50, Pop]
                           (fresh [0, 0, 0, 0 :: nat] 0)) = Some 2 \<and>
   (2 :: nat) \<le> unat (4 :: uint32) - 1"
proof -
  let ?e = "exec 4 True [Push 10, Push 20, Pop, Push 30, Push 40, Push 50, Pop]
                           (fresh [0, 0, 0, 0 :: nat] 0)"
  have h: "(4 :: uint32) \<noteq> 0" by simp
  have g: "unat (4 :: uint32) dvd 2 ^ 32" by simp
  from index_gap_counts_live [OF h, of True "[Push 10, Push 20, Pop, Push 30, Push 40, Push 50, Pop]"
         "[0, 0, 0, 0 :: nat]" 0] g
  obtain c where c: "?e = Some c" "index_gap c = live c" "live c \<le> unat (4 :: uint32) - 1"
    "unat (m_count (queue_of c)) = live c"
    by blast
  have l: "map_option live ?e = Some 2"
    by (simp add: fresh_def ArrayLockFreeQueueBase_def apply_op_def push_returns pop_returns
          countToIndex_def live_def)
  with c(1) have l2: "live c = 2" by simp
  with c(2) c(1) have 1: "map_option index_gap ?e = Some 2" by simp
  from c(4) l2 have "unat (m_count (queue_of c)) = unat (2 :: uint32)" by simp
  then have "m_count (queue_of c) = 2" by (simp only: word_unat_eq_iff)
  with c(1) have 2: "map_option (m_count \<circ> queue_of) ?e = Some 2" by simp
  from c(3) l2 have 3: "(2 :: nat) \<le> unat (4 :: uint32) - 1" by simp
  from h g 1 l 2 3 show ?thesis by blast
qed

text \<open>
  With \<^verbatim>\<open>Q_SIZE = 3\<close>, the run that takes \<^verbatim>\<open>m_writeIndex\<close> past \<open>2^32 - 1\<close> ends with
  three live elements: more than \<^verbatim>\<open>Q_SIZE - 1\<close>.
\<close>

theorem index_gap_counterexample:
  "map_option index_gap (exec 3 False (run_past_wrap 0) (fresh [0, 0, 0] (0 :: nat))) = Some 3 \<and>
   map_option live (exec 3 False (run_past_wrap 0) (fresh [0, 0, 0] (0 :: nat))) = Some 3 \<and>
   \<not> (3 :: nat) \<le> unat (3 :: uint32) - 1"
proof -
  have "length [0, 0, 0 :: nat] = 3" by simp
  from run_past_wrap_3 [OF this, of False 0 0]
  obtain c where c: "exec 3 False (run_past_wrap 0) (fresh [0, 0, 0] (0 :: nat)) = Some c"
    "m_writeIndex (queue_of c) = 0" "m_readIndex (queue_of c) = 0xFFFFFFFD"
    "length (pushed c) = 2 ^ 32" "length (popped c) = 2 ^ 32 - 3"
    by auto
  show ?thesis unfolding c(1) using c(2,3,4,5)
    by (simp add: index_gap_def live_def)
qed

section \<open>A queue of one slot\<close>

text \<open>
  C10. With \<^verbatim>\<open>Q_SIZE = 1\<close> every counter is in slot 0, so the test for a full queue and
  the test for an empty queue both hold in every state: every \<^verbatim>\<open>push\<close> returns false and
  every \<^verbatim>\<open>pop\<close> returns false, leaving the state unchanged. No element is ever stored
  or delivered.
\<close>

theorem size_one_queue_is_unusable:
  "countToIndex 1 c = 0 \<and>
   index_full 1 s \<and>
   countToIndex 1 (m_readIndex s) = countToIndex 1 (m_writeIndex s) \<and>
   push 1 keep v s = (False, s) \<and>
   pop 1 keep (d, s) = Some (False, d, s)"
  by (simp add: pop_returns push_returns countToIndex_def index_full_def)

end
